theory Spec2Isabelle
  imports Complex_Main
begin

section \<open>Arrays, errors and the library calls of src/functions.py\<close>

text \<open>
  The program is NumPy code over real and complex arrays. The embedding works in exact
  arithmetic: a float is a \<open>real\<close>, a complex float a \<open>complex\<close>, and rounding is not
  modelled. A one-dimensional array is a list. A two-dimensional array is the list of
  its rows, all of one length; such a list stands for the arrays of shape \<open>(N, M)\<close> with
  \<open>N \<ge> 1\<close>, and \<open>[]\<close> for the array of shape \<open>(0, 0)\<close> (a list of rows cannot
  tell the shapes \<open>(0, M)\<close> apart). Exceptions are values: a function that can raise
  returns \<open>error + 'a\<close>, with \<open>Inl\<close> the exception.
\<close>

datatype error = ValueError | IndexError | ZeroDivisionError

text \<open>Sequencing: the first exception raised ends the computation.\<close>

definition then_do :: "error + 'a \<Rightarrow> ('a \<Rightarrow> error + 'b) \<Rightarrow> error + 'b" where
  "then_do r f = (case r of Inl e \<Rightarrow> Inl e | Inr v \<Rightarrow> f v)"

definition is_field :: "nat \<Rightarrow> nat \<Rightarrow> 'a list list \<Rightarrow> bool" where
  "is_field N M a \<longleftrightarrow> length a = N \<and> list_all (\<lambda>r. length r = M) a"

definition shape :: "'a list list \<Rightarrow> nat \<times> nat" where
  "shape a = (length a, case a of [] \<Rightarrow> 0 | r # _ \<Rightarrow> length r)"

text \<open>\<open>array.T\<close> of a two-dimensional array.\<close>

definition T :: "'a list list \<Rightarrow> 'a list list" where
  "T a = (case a of [] \<Rightarrow> []
          | r # _ \<Rightarrow> map (\<lambda>j. map (\<lambda>row. row ! j) a) [0..<length r])"

text \<open>
  NumPy broadcasting of an elementwise binary operator over two two-dimensional arrays:
  on each axis the lengths must be equal or one of them 1, otherwise the operator raises
  \<open>ValueError\<close> (operands could not be broadcast together); an axis of length 1 is
  repeated along the other operand's length.
\<close>

definition bdim :: "nat \<Rightarrow> nat \<Rightarrow> nat option" where
  "bdim m n = (if m = n then Some m else if m = 1 then Some n
               else if n = 1 then Some m else None)"

definition broadcast2 ::
  "('a \<Rightarrow> 'b \<Rightarrow> 'c) \<Rightarrow> 'a list list \<Rightarrow> 'b list list \<Rightarrow> error + 'c list list" where
  "broadcast2 f a b =
     (case (bdim (fst (shape a)) (fst (shape b)), bdim (snd (shape a)) (snd (shape b))) of
        (Some R, Some C) \<Rightarrow>
          Inr (map (\<lambda>i. map (\<lambda>j.
                 f (a ! (if fst (shape a) = 1 then 0 else i) ! (if snd (shape a) = 1 then 0 else j))
                   (b ! (if fst (shape b) = 1 then 0 else i) ! (if snd (shape b) = 1 then 0 else j)))
               [0..<C]) [0..<R])
      | _ \<Rightarrow> Inl ValueError)"

text \<open>
  \<open>np.fft.fftfreq(n, d=1)\<close>, as NumPy implements it: \<open>val = 1.0 / (n * d)\<close> (which
  raises \<open>ZeroDivisionError\<close> for \<open>n = 0\<close>), then the integers \<open>arange(0, (n-1)//2 + 1)\<close>
  followed by \<open>arange(-(n//2), 0)\<close>, each times \<open>val\<close>.
\<close>

definition fftfreq :: "nat \<Rightarrow> error + real list" where
  "fftfreq n =
     (if n = 0 then Inl ZeroDivisionError
      else let val = 1 / real n;
               N = (n - 1) div 2 + 1;
               p1 = map int [0..<N];
               p2 = [- int (n div 2)..-1]
           in Inr (map (\<lambda>k. real_of_int k * val) (p1 @ p2)))"

text \<open>
  The discrete Fourier transforms of \<open>scipy.fft\<close> and \<open>scipy.fftpack\<close>, by their
  documented definition: \<open>fft(x)[k] = \<Sum>m. x[m] exp(-2\<pi>i km/n)\<close> and
  \<open>ifft(y)[m] = (1/n) \<Sum>k. y[k] exp(2\<pi>i km/n)\<close>; the two-dimensional transforms sum
  over both axes. All of them raise \<open>ValueError\<close> (invalid number of data points) on an
  axis of length 0. \<open>twiddle n e\<close> is \<open>exp(2\<pi>i e/n)\<close>.
\<close>

definition twiddle :: "nat \<Rightarrow> int \<Rightarrow> complex" where
  "twiddle n e = cis (2 * pi * real_of_int e / real n)"

definition fft :: "complex list \<Rightarrow> error + complex list" where
  "fft x =
     (let n = length x in
      if n = 0 then Inl ValueError
      else Inr (map (\<lambda>k. \<Sum>m\<leftarrow>[0..<n]. x ! m * twiddle n (- (int k * int m))) [0..<n]))"

definition ifft :: "complex list \<Rightarrow> error + complex list" where
  "ifft y =
     (let n = length y in
      if n = 0 then Inl ValueError
      else Inr (map (\<lambda>m. (\<Sum>k\<leftarrow>[0..<n]. y ! k * twiddle n (int k * int m)) / of_nat n) [0..<n]))"

definition fft2 :: "complex list list \<Rightarrow> error + complex list list" where
  "fft2 x =
     (let R = fst (shape x); C = snd (shape x) in
      if R = 0 \<or> C = 0 then Inl ValueError
      else Inr (map (\<lambda>k. map (\<lambda>l.
                  \<Sum>a\<leftarrow>[0..<R]. \<Sum>b\<leftarrow>[0..<C].
                     x ! a ! b * twiddle R (- (int k * int a)) * twiddle C (- (int l * int b)))
                [0..<C]) [0..<R]))"

definition ifft2 :: "complex list list \<Rightarrow> error + complex list list" where
  "ifft2 y =
     (let R = fst (shape y); C = snd (shape y) in
      if R = 0 \<or> C = 0 then Inl ValueError
      else Inr (map (\<lambda>a. map (\<lambda>b.
                  (\<Sum>k\<leftarrow>[0..<R]. \<Sum>l\<leftarrow>[0..<C].
                     y ! k ! l * twiddle R (int k * int a) * twiddle C (int l * int b))
                  / of_nat (R * C))
                [0..<C]) [0..<R]))"

section \<open>spectralDeriv\<close>

text \<open>
  \<^verbatim>\<open>
  N = array.shape[0]
  freqs = np.fft.fftfreq(N, d=1) * 2 * np.pi
  return np.real(ifft(1j * freqs * fft(array)))
  \<close>
\<close>

definition spectralDeriv :: "real list \<Rightarrow> error + real list" where
  "spectralDeriv array =
     (let N = length array in
      case fftfreq N of Inl e \<Rightarrow> Inl e
      | Inr fr \<Rightarrow>
         (let freqs = map (\<lambda>f. f * 2 * pi) fr in
          case fft (map complex_of_real array) of Inl e \<Rightarrow> Inl e
          | Inr ahat \<Rightarrow>
             (case ifft (map2 (\<lambda>f c. \<i> * complex_of_real f * c) freqs ahat) of
                Inl e \<Rightarrow> Inl e
              | Inr d \<Rightarrow> Inr (map Re d))))"

section \<open>ddx and ddy\<close>

text \<open>
  \<^verbatim>\<open>
  deriv = spectralDeriv(array[0]).reshape(1, -1)
  for slice_ in array[1:]:
      deriv = np.concatenate([deriv, spectralDeriv(slice_).reshape(1, -1)])
  return deriv
  \<close>
  \<open>array[0]\<close> raises \<open>IndexError\<close> on an array without rows. The rows of an array
  have one length and \<open>spectralDeriv\<close> keeps it, so \<open>np.concatenate\<close> always
  succeeds and appends the new row. The loop is the same text in \<open>ddx\<close> and \<open>ddy\<close>;
  \<open>ddy\<close> runs it on \<open>array.T\<close> and returns \<open>deriv.T\<close>.
\<close>

fun deriv_loop :: "real list list \<Rightarrow> real list list \<Rightarrow> error + real list list" where
  "deriv_loop deriv [] = Inr deriv"
| "deriv_loop deriv (slice # rest) =
     (case spectralDeriv slice of Inl e \<Rightarrow> Inl e
      | Inr d \<Rightarrow> deriv_loop (deriv @ [d]) rest)"

definition ddx :: "real list list \<Rightarrow> error + real list list" where
  "ddx array =
     (case array of [] \<Rightarrow> Inl IndexError
      | a0 # rest \<Rightarrow>
          (case spectralDeriv a0 of Inl e \<Rightarrow> Inl e
           | Inr d0 \<Rightarrow> deriv_loop [d0] rest))"

definition ddy :: "real list list \<Rightarrow> error + real list list" where
  "ddy array =
     (let array_T = T array in
      case array_T of [] \<Rightarrow> Inl IndexError
      | a0 # rest \<Rightarrow>
          (case spectralDeriv a0 of Inl e \<Rightarrow> Inl e
           | Inr d0 \<Rightarrow>
               (case deriv_loop [d0] rest of Inl e \<Rightarrow> Inl e
                | Inr deriv \<Rightarrow> Inr (T deriv))))"

section \<open>getVorticity\<close>

text \<open>\<^verbatim>\<open>omega = ddx(vy) - ddy(vx)\<close>\<close>

definition getVorticity :: "real list list \<Rightarrow> real list list \<Rightarrow> error + real list list" where
  "getVorticity vx vy =
     (case ddx vy of Inl e \<Rightarrow> Inl e
      | Inr dvy \<Rightarrow>
         (case ddy vx of Inl e \<Rightarrow> Inl e
          | Inr dvx \<Rightarrow> broadcast2 (-) dvy dvx))"

section \<open>getOkuboWeiss\<close>

text \<open>
  \<open>x.reshape(-1, 1)\<close> and \<open>x.reshape(1, -1)\<close> of a one-dimensional array, and
  \<open>np.meshgrid(x, y)\<close> with its default \<open>indexing='xy'\<close>: both arguments are
  flattened, and the two results have shape \<open>(len(y), len(x))\<close>, the first repeating
  \<open>x\<close> in every row, the second repeating \<open>y\<close> in every column.
\<close>

definition reshape_col :: "'a list \<Rightarrow> 'a list list" where
  "reshape_col x = map (\<lambda>v. [v]) x"

definition reshape_row :: "'a list \<Rightarrow> 'a list list" where
  "reshape_row x = [x]"

definition meshgrid :: "'a list list \<Rightarrow> 'a list list \<Rightarrow> 'a list list \<times> 'a list list" where
  "meshgrid x y =
     (let xs = concat x; ys = concat y
      in (map (\<lambda>_. xs) ys, map (\<lambda>v. map (\<lambda>_. v) xs) ys))"

text \<open>\<open>2 * np.pi * 1j * k\<close> for a real array \<open>k\<close>, and \<open>np.real\<close> of a complex array.\<close>

definition two_pi_i :: "real list list \<Rightarrow> complex list list" where
  "two_pi_i k = map (map (\<lambda>v. 2 * complex_of_real pi * \<i> * complex_of_real v)) k"

definition np_real :: "complex list list \<Rightarrow> real list list" where
  "np_real a = map (map Re) a"

text \<open>
  \<^verbatim>\<open>
  N = psi.shape[0]
  kx = np.fft.fftfreq(N).reshape(-1, 1)
  ky = np.fft.fftfreq(N).reshape(1, -1)
  kx, ky = np.meshgrid(kx, ky)
  psi_hat = scipy.fftpack.fft2(psi)
  psi_xy = np.real(scipy.fftpack.ifft2((2 * np.pi * 1j * kx) * (2 * np.pi * 1j * ky) * psi_hat))
  psi_xx = np.real(scipy.fftpack.ifft2((2 * np.pi * 1j * kx)**2 * psi_hat))
  psi_yy = np.real(scipy.fftpack.ifft2((2 * np.pi * 1j * ky)**2 * psi_hat))
  Q = psi_xy * psi_xy - psi_xx * psi_yy
  \<close>
  \<open>okubo_partials\<close> is the function up to the three second partials, returned as
  \<open>(psi_xy, psi_xx, psi_yy)\<close>; \<open>getOkuboWeiss\<close> continues from them.
\<close>

definition okubo_partials ::
  "real list list \<Rightarrow> error + real list list \<times> real list list \<times> real list list" where
  "okubo_partials psi =
     (let N = fst (shape psi) in
      then_do (fftfreq N) (\<lambda>f1.
      then_do (fftfreq N) (\<lambda>f2.
      let (kx, ky) = meshgrid (reshape_col f1) (reshape_row f2) in
      then_do (fft2 (map (map complex_of_real) psi)) (\<lambda>psi_hat.
      then_do (broadcast2 (*) (two_pi_i kx) (two_pi_i ky)) (\<lambda>kxky.
      then_do (broadcast2 (*) kxky psi_hat) (\<lambda>cxy.
      then_do (ifft2 cxy) (\<lambda>dxy.
      let psi_xy = np_real dxy in
      then_do (broadcast2 (*) (map (map (\<lambda>z. z ^ 2)) (two_pi_i kx)) psi_hat) (\<lambda>cxx.
      then_do (ifft2 cxx) (\<lambda>dxx.
      let psi_xx = np_real dxx in
      then_do (broadcast2 (*) (map (map (\<lambda>z. z ^ 2)) (two_pi_i ky)) psi_hat) (\<lambda>cyy.
      then_do (ifft2 cyy) (\<lambda>dyy.
      let psi_yy = np_real dyy in
      Inr (psi_xy, psi_xx, psi_yy))))))))))))"

definition getOkuboWeiss :: "real list list \<Rightarrow> error + real list list" where
  "getOkuboWeiss psi =
     then_do (okubo_partials psi) (\<lambda>(psi_xy, psi_xx, psi_yy).
     then_do (broadcast2 (*) psi_xy psi_xy) (\<lambda>sq.
     then_do (broadcast2 (*) psi_xx psi_yy) (\<lambda>pr.
     broadcast2 (-) sq pr)))"

section \<open>getRandomStreamFunction\<close>

text \<open>
  \<open>np.max\<close> of a two-dimensional array; it raises \<open>ValueError\<close> on an array without
  elements.
\<close>

definition amax :: "real list list \<Rightarrow> error + real" where
  "amax a = (case concat a of [] \<Rightarrow> Inl ValueError | v # vs \<Rightarrow> Inr (fold max vs v))"

text \<open>
  \<^verbatim>\<open>
  pattern = gaussian_filter(2 * np.random.rand(N, N) - 1, sigma, mode='wrap')
  max_val = np.max(np.abs(pattern))
  if max_val == 0:
      raise ValueError("Generated pattern has zero maximum; cannot normalize")
  psi = pattern / max_val
  return psi
  \<close>
  The random source \<open>np.random.rand\<close> and SciPy's \<open>gaussian_filter\<close> (with
  \<open>mode='wrap'\<close>) are parameters of the model.
\<close>

definition getRandomStreamFunction ::
  "(nat \<Rightarrow> nat \<Rightarrow> real list list) \<Rightarrow> (real list list \<Rightarrow> real \<Rightarrow> real list list) \<Rightarrow>
   nat \<Rightarrow> real \<Rightarrow> error + real list list" where
  "getRandomStreamFunction rand gaussian_filter N sigma =
     (let pattern = gaussian_filter (map (map (\<lambda>u. 2 * u - 1)) (rand N N)) sigma in
      then_do (amax (map (map abs) pattern)) (\<lambda>max_val.
      if max_val = 0 then Inl ValueError
      else Inr (map (map (\<lambda>p. p / max_val)) pattern)))"

section \<open>Reference formulas\<close>

text \<open>
  The standard FFT frequency ordering: index \<open>k\<close> of a transform of length \<open>N\<close>
  carries the frequency number \<open>k\<close> in the lower half of the indices and \<open>k - N\<close>
  (a negative number) in the upper half. \<open>cfac N k\<close> is the factor \<open>i\<cdot>(2\<pi>\<cdot>k/N)\<close>
  of that mode.
\<close>

definition fft_index :: "nat \<Rightarrow> nat \<Rightarrow> int" where
  "fft_index N k = (if 2 * k < N then int k else int k - int N)"

definition cfac :: "nat \<Rightarrow> nat \<Rightarrow> complex" where
  "cfac N k = \<i> * complex_of_real (2 * pi * real_of_int (fft_index N k) / real N)"

text \<open>
  The spectral derivative as the specification words it: forward transform, every
  coefficient times \<open>i\<cdot>(2\<pi>\<cdot>k/N)\<close>, inverse transform, real part.
\<close>

definition spectralDeriv_spec :: "real list \<Rightarrow> real list" where
  "spectralDeriv_spec x =
     (let N = length x in
      map (\<lambda>n. Re ((\<Sum>k<N. cfac N k * (\<Sum>m<N. complex_of_real (x ! m) * twiddle N (- (int k * int m)))
                             * twiddle N (int k * int n)) / of_nat N))
          [0..<N])"

text \<open>
  The derivative is a real linear map; \<open>dker N n m\<close> is its matrix, the real part of
  \<open>E1 N n m\<close>. \<open>E2\<close> and \<open>d2ker\<close> are the same with the squared factor.
\<close>

definition E1 :: "nat \<Rightarrow> nat \<Rightarrow> nat \<Rightarrow> complex" where
  "E1 N n m = (\<Sum>k<N. cfac N k * twiddle N (int k * (int n - int m))) / of_nat N"

definition E2 :: "nat \<Rightarrow> nat \<Rightarrow> nat \<Rightarrow> complex" where
  "E2 N n m = (\<Sum>k<N. (cfac N k)\<^sup>2 * twiddle N (int k * (int n - int m))) / of_nat N"

definition dker :: "nat \<Rightarrow> nat \<Rightarrow> nat \<Rightarrow> real" where
  "dker N n m = Re (E1 N n m)"

definition d2ker :: "nat \<Rightarrow> nat \<Rightarrow> nat \<Rightarrow> real" where
  "d2ker N n m = Re (E2 N n m)"

text \<open>
  For an even length \<open>N\<close> the index \<open>N div 2\<close> is the Nyquist mode; \<open>modes N\<close> are
  the other indices, \<open>E1K\<close> and \<open>E2K\<close> the kernels summed over them, and \<open>nyq N\<close>
  the size \<open>\<pi>/N\<close> of the Nyquist term (0 for odd \<open>N\<close>). \<open>alt_sum\<close> is the
  alternating sum of a sequence, its Nyquist coefficient; a field is \<open>nyquist_free\<close>
  when the alternating sum of every row and of every column is 0.
\<close>

definition modes :: "nat \<Rightarrow> nat set" where
  "modes N = {k. k < N \<and> 2 * k \<noteq> N}"

definition E1K :: "nat \<Rightarrow> nat \<Rightarrow> nat \<Rightarrow> complex" where
  "E1K N n m = (\<Sum>k\<in>modes N. cfac N k * twiddle N (int k * (int n - int m))) / of_nat N"

definition E2K :: "nat \<Rightarrow> nat \<Rightarrow> nat \<Rightarrow> complex" where
  "E2K N n m = (\<Sum>k\<in>modes N. (cfac N k)\<^sup>2 * twiddle N (int k * (int n - int m))) / of_nat N"

definition nyq :: "nat \<Rightarrow> real" where
  "nyq N = (if even N then pi / real N else 0)"

definition alt_sum :: "real list \<Rightarrow> real" where
  "alt_sum xs = (\<Sum>c<length xs. (- 1) ^ c * xs ! c)"

definition nyquist_free :: "real list list \<Rightarrow> bool" where
  "nyquist_free psi \<longleftrightarrow>
     list_all (\<lambda>r. alt_sum r = 0) psi \<and> list_all (\<lambda>c. alt_sum c = 0) (T psi)"

text \<open>
  \<open>tab N M f\<close> is the array of shape \<open>(N, M)\<close> with entry \<open>f i j\<close> at row \<open>i\<close>,
  column \<open>j\<close>.
\<close>

definition tab :: "nat \<Rightarrow> nat \<Rightarrow> (nat \<Rightarrow> nat \<Rightarrow> 'a) \<Rightarrow> 'a list list" where
  "tab N M f = map (\<lambda>i. map (\<lambda>j. f i j) [0..<M]) [0..<N]"

text \<open>
  The Okubo--Weiss field as the specification words it. \<open>psi_hat_spec\<close> is the one
  forward two-dimensional transform of \<open>psi\<close>. Each second partial is the real part of
  an inverse transform of the coefficients, the coefficient at \<open>(row, col)\<close> multiplied
  by the wavenumber factors of that position: \<open>kx\<close> varies along the column axis, so
  \<open>i\<cdot>2\<pi>\<cdot>kx\<close> is \<open>cfac N col\<close>, and \<open>ky\<close> along the row axis, so \<open>i\<cdot>2\<pi>\<cdot>ky\<close>
  is \<open>cfac N row\<close>. Then \<open>Q = psi_xy\<^sup>2 - psi_xx \<cdot> psi_yy\<close>.
\<close>

definition dft2 :: "nat \<Rightarrow> (nat \<Rightarrow> nat \<Rightarrow> complex) \<Rightarrow> nat \<Rightarrow> nat \<Rightarrow> complex" where
  "dft2 N x k l = (\<Sum>a<N. \<Sum>b<N. x a b * twiddle N (- (int k * int a)) * twiddle N (- (int l * int b)))"

definition idft2 :: "nat \<Rightarrow> (nat \<Rightarrow> nat \<Rightarrow> complex) \<Rightarrow> nat \<Rightarrow> nat \<Rightarrow> complex" where
  "idft2 N y a b = (\<Sum>k<N. \<Sum>l<N. y k l * twiddle N (int k * int a) * twiddle N (int l * int b)) / of_nat (N * N)"

definition psi_hat_spec :: "real list list \<Rightarrow> nat \<Rightarrow> nat \<Rightarrow> complex" where
  "psi_hat_spec psi = dft2 (length psi) (\<lambda>r c. complex_of_real (psi ! r ! c))"

definition psi_xy_spec :: "real list list \<Rightarrow> nat \<Rightarrow> nat \<Rightarrow> real" where
  "psi_xy_spec psi row col =
     (let N = length psi in
      Re (idft2 N (\<lambda>r c. cfac N c * cfac N r * psi_hat_spec psi r c) row col))"

definition psi_xx_spec :: "real list list \<Rightarrow> nat \<Rightarrow> nat \<Rightarrow> real" where
  "psi_xx_spec psi row col =
     (let N = length psi in
      Re (idft2 N (\<lambda>r c. (cfac N c)\<^sup>2 * psi_hat_spec psi r c) row col))"

definition psi_yy_spec :: "real list list \<Rightarrow> nat \<Rightarrow> nat \<Rightarrow> real" where
  "psi_yy_spec psi row col =
     (let N = length psi in
      Re (idft2 N (\<lambda>r c. (cfac N r)\<^sup>2 * psi_hat_spec psi r c) row col))"

definition okubo_weiss_spec :: "real list list \<Rightarrow> real list list" where
  "okubo_weiss_spec psi =
     tab (length psi) (length psi)
       (\<lambda>row col. (psi_xy_spec psi row col)\<^sup>2 - psi_xx_spec psi row col * psi_yy_spec psi row col)"

section \<open>Sums, frequencies and the formula of spectralDeriv\<close>

lemma sum_list_upt: "(\<Sum>m\<leftarrow>[0..<n]. f m) = (\<Sum>m<n. f m)"
  by (simp add: interv_sum_list_conv_sum_set_nat atLeast0LessThan)

lemma fftfreq_index_list:
  assumes "0 < n"
  shows "map int [0..<(n - 1) div 2 + 1] @ [- int (n div 2)..-1] = map (fft_index n) [0..<n]"
proof (rule nth_equalityI)
  show "length (map int [0..<(n - 1) div 2 + 1] @ [- int (n div 2)..-1]) = length (map (fft_index n) [0..<n])"
    using assms by simp
next
  fix i assume "i < length (map int [0..<(n - 1) div 2 + 1] @ [- int (n div 2)..-1])"
  then have i: "i < n" using assms by simp
  show "(map int [0..<(n - 1) div 2 + 1] @ [- int (n div 2)..-1]) ! i = map (fft_index n) [0..<n] ! i"
  proof (cases "i < (n - 1) div 2 + 1")
    case True
    then have "2 * i < n" using assms by presburger
    with True i show ?thesis by (simp add: nth_append fft_index_def)
  next
    case False
    then have h: "\<not> 2 * i < n" using assms by presburger
    have "- int (n div 2) + int (i - ((n - 1) div 2 + 1)) = int i - int n"
      using False i assms by presburger
    moreover have "- int (n div 2) + int (i - ((n - 1) div 2 + 1)) \<le> -1"
      using False i assms by presburger
    ultimately show ?thesis using False i h
      by (simp add: nth_append fft_index_def)
  qed
qed

lemma fftfreq_eq:
  assumes "0 < n"
  shows "fftfreq n = Inr (map (\<lambda>k. real_of_int (fft_index n k) * (1 / real n)) [0..<n])"
  unfolding fftfreq_def Let_def fftfreq_index_list[OF assms] using assms by (simp add: comp_def)

lemma twiddle_add: "twiddle N (a + b) = twiddle N a * twiddle N b"
  by (simp add: twiddle_def cis_mult ring_distribs add_divide_distrib)

lemma twiddle_0 [simp]: "twiddle N 0 = 1"
  by (simp add: twiddle_def)

lemma map2_upt: "map2 f (map g [0..<n]) (map h [0..<n]) = map (\<lambda>k. f (g k) (h k)) [0..<n]"
  by (simp add: zip_map_map zip_same_conv_map comp_def)

lemma fft_map:
  assumes "0 < n"
  shows "fft (map g [0..<n]) = Inr (map (\<lambda>k. \<Sum>m<n. g m * twiddle n (- (int k * int m))) [0..<n])"
proof -
  have "(\<Sum>m<n. map g [0..<n] ! m * twiddle n (- (int k * int m)))
      = (\<Sum>m<n. g m * twiddle n (- (int k * int m)))" for k
    by (rule sum.cong) simp_all
  then show ?thesis using assms by (simp add: fft_def sum_list_upt)
qed

lemma ifft_map:
  assumes "0 < n"
  shows "ifft (map g [0..<n]) = Inr (map (\<lambda>m. (\<Sum>k<n. g k * twiddle n (int k * int m)) / of_nat n) [0..<n])"
proof -
  have "(\<Sum>k<n. map g [0..<n] ! k * twiddle n (int k * int m))
      = (\<Sum>k<n. g k * twiddle n (int k * int m))" for m
    by (rule sum.cong) simp_all
  then show ?thesis using assms by (simp add: ifft_def sum_list_upt)
qed

lemma map_as_upt: "map f x = map (\<lambda>m. f (x ! m)) [0..<length x]"
  by (rule nth_equalityI) simp_all

lemma spectralDeriv_formula:
  assumes "x \<noteq> []"
  shows "spectralDeriv x = Inr (spectralDeriv_spec x)"
proof -
  let ?N = "length x"
  have N: "0 < ?N" using assms by simp
  have c: "\<i> * complex_of_real (real_of_int (fft_index ?N k) * (1 / real ?N) * 2 * pi) = cfac ?N k" for k
    by (simp add: cfac_def mult_ac)
  have f: "fft (map complex_of_real x)
      = Inr (map (\<lambda>k. \<Sum>m<?N. complex_of_real (x ! m) * twiddle ?N (- (int k * int m))) [0..<?N])"
    by (subst map_as_upt) (rule fft_map[OF N])
  have m: "map (\<lambda>f. f * 2 * pi) (map (\<lambda>k. real_of_int (fft_index ?N k) * (1 / real ?N)) [0..<?N])
      = map (\<lambda>k. real_of_int (fft_index ?N k) * (1 / real ?N) * 2 * pi) [0..<?N]"
    by (simp add: comp_def)
  show ?thesis
    unfolding spectralDeriv_def Let_def fftfreq_eq[OF N] f sum.case m map2_upt c ifft_map[OF N]
      spectralDeriv_spec_def
    by (simp only: list.map_comp comp_def)
qed

lemma twiddle_shift: "twiddle N (- (k * m)) * twiddle N (k * n) = twiddle N (k * (n - m))"
  by (simp add: twiddle_add[symmetric] right_diff_distrib)

lemma deriv_sum_kernel:
  "(\<Sum>k<N. p k * (\<Sum>m<N. x m * twiddle N (- (int k * int m))) * twiddle N (int k * int n)) / of_nat N
   = (\<Sum>m<N. x m * ((\<Sum>k<N. p k * twiddle N (int k * (int n - int m))) / of_nat N))"
proof -
  have "(\<Sum>k<N. p k * (\<Sum>m<N. x m * twiddle N (- (int k * int m))) * twiddle N (int k * int n))
      = (\<Sum>k<N. \<Sum>m<N. x m * (p k * twiddle N (int k * (int n - int m))))"
    by (simp add: sum_distrib_left sum_distrib_right mult.assoc twiddle_shift mult.left_commute)
  also have "\<dots> = (\<Sum>m<N. \<Sum>k<N. x m * (p k * twiddle N (int k * (int n - int m))))"
    by (rule sum.swap)
  finally show ?thesis
    by (simp add: sum_distrib_left sum_divide_distrib)
qed

lemma spectralDeriv_spec_kernel:
  "spectralDeriv_spec x = map (\<lambda>n. \<Sum>m<length x. dker (length x) n m * x ! m) [0..<length x]"
  unfolding spectralDeriv_spec_def Let_def deriv_sum_kernel
  by (simp add: dker_def E1_def mult.commute)

lemma length_spectralDeriv_spec [simp]: "length (spectralDeriv_spec x) = length x"
  by (simp add: spectralDeriv_spec_def Let_def)

section \<open>Fields, transposition and the slice-wise operators\<close>

lemma is_field_iff: "is_field N M a \<longleftrightarrow> length a = N \<and> (\<forall>i<N. length (a ! i) = M)"
  by (auto simp: is_field_def list_all_length)

lemma field_eqI:
  assumes "is_field N M a" "is_field N M b"
    and "\<And>i j. i < N \<Longrightarrow> j < M \<Longrightarrow> a ! i ! j = b ! i ! j"
  shows "a = b"
proof (rule nth_equalityI)
  show "length a = length b" using assms(1,2) by (simp add: is_field_iff)
next
  fix i assume "i < length a"
  then have i: "i < N" using assms(1) by (simp add: is_field_iff)
  show "a ! i = b ! i"
  proof (rule nth_equalityI)
    show "length (a ! i) = length (b ! i)" using assms(1,2) i by (simp add: is_field_iff)
  next
    fix j assume "j < length (a ! i)"
    then have "j < M" using assms(1) i by (simp add: is_field_iff)
    then show "a ! i ! j = b ! i ! j" using assms(3) i by simp
  qed
qed

lemma shape_field: "is_field N M a \<Longrightarrow> 0 < N \<Longrightarrow> shape a = (N, M)"
  by (cases a) (auto simp: shape_def is_field_def)

lemma T_field:
  assumes "is_field N M a" "0 < N"
  shows "T a = map (\<lambda>j. map (\<lambda>i. a ! i ! j) [0..<N]) [0..<M]"
proof -
  obtain r rs where a: "a = r # rs" using assms by (cases a) (auto simp: is_field_def)
  have "length r = M" using assms a by (simp add: is_field_def)
  moreover have "map (\<lambda>row. row ! j) a = map (\<lambda>i. a ! i ! j) [0..<N]" for j
    using assms(1) by (subst map_as_upt) (simp add: is_field_iff)
  ultimately show ?thesis by (simp add: T_def a)
qed

lemma is_field_T:
  assumes "is_field N M a" "0 < N"
  shows "is_field M N (T a)"
  unfolding T_field[OF assms] by (simp add: is_field_iff)

lemma nth_T: "is_field N M a \<Longrightarrow> i < N \<Longrightarrow> j < M \<Longrightarrow> T a ! j ! i = a ! i ! j"
  by (simp add: T_field)

lemma T_T: 
  assumes "is_field N M a" "0 < N" "0 < M" shows "T (T a) = a"
proof (rule field_eqI[of N M])
  show "is_field N M (T (T a))" using assms by (intro is_field_T) simp_all
  show "is_field N M a" by fact
  fix i j assume "i < N" "j < M"
  then show "T (T a) ! i ! j = a ! i ! j"
    using assms by (simp add: nth_T[of M N] is_field_T nth_T[of N M])
qed

lemma deriv_loop_spec:
  "\<forall>r\<in>set rest. r \<noteq> [] \<Longrightarrow> deriv_loop deriv rest = Inr (deriv @ map spectralDeriv_spec rest)"
  by (induction rest arbitrary: deriv) (simp_all add: spectralDeriv_formula)

lemma rows_nonempty: "is_field N M a \<Longrightarrow> 0 < M \<Longrightarrow> \<forall>r\<in>set a. r \<noteq> []"
  by (auto simp: is_field_def list_all_iff)

lemma ddx_spec:
  assumes "is_field N M a" "0 < N" "0 < M"
  shows "ddx a = Inr (map spectralDeriv_spec a)"
proof -
  obtain r rs where a: "a = r # rs" using assms by (cases a) (auto simp: is_field_def)
  have ne: "\<forall>r\<in>set a. r \<noteq> []" using assms by (rule_tac rows_nonempty) 
  then show ?thesis
    by (simp add: ddx_def a spectralDeriv_formula deriv_loop_spec)
qed

lemma ddy_spec:
  assumes "is_field N M a" "0 < N" "0 < M"
  shows "ddy a = Inr (T (map spectralDeriv_spec (T a)))"
proof -
  have f: "is_field M N (T a)" using assms(1,2) by (rule is_field_T)
  then obtain r rs where a: "T a = r # rs" using assms by (cases "T a") (auto simp: is_field_def)
  have ne: "\<forall>r\<in>set (T a). r \<noteq> []" using f assms(2) by (rule rows_nonempty) 
  then show ?thesis
    by (simp add: ddy_def a spectralDeriv_formula deriv_loop_spec)
qed

lemma is_field_map_spec: "is_field N M a \<Longrightarrow> is_field N M (map spectralDeriv_spec a)"
  by (simp add: is_field_iff)

lemma nth_map_spec:
  assumes "is_field N M a" "i < N" "j < M"
  shows "map spectralDeriv_spec a ! i ! j = (\<Sum>m<M. dker M j m * a ! i ! m)"
  using assms by (simp add: is_field_iff spectralDeriv_spec_kernel)

lemma is_field_ddy_val:
  assumes "is_field N M a" "0 < N" "0 < M"
  shows "is_field N M (T (map spectralDeriv_spec (T a)))"
  by (intro is_field_T is_field_map_spec assms)

lemma nth_ddy_val:
  assumes "is_field N M a" "i < N" "j < M"
  shows "T (map spectralDeriv_spec (T a)) ! i ! j = (\<Sum>l<N. dker N i l * a ! l ! j)"
proof -
  have N: "0 < N" using assms by simp
  have f: "is_field M N (T a)" using assms(1) N by (rule is_field_T)
  have "T (map spectralDeriv_spec (T a)) ! i ! j = map spectralDeriv_spec (T a) ! j ! i"
    using is_field_map_spec[OF f] assms by (simp add: nth_T)
  also have "\<dots> = (\<Sum>l<N. dker N i l * T a ! j ! l)"
    by (rule nth_map_spec[OF f assms(3) assms(2)])
  also have "\<dots> = (\<Sum>l<N. dker N i l * a ! l ! j)"
    using assms by (intro sum.cong) (simp_all add: nth_T)
  finally show ?thesis .
qed

lemma ddx_ddy_commute:
  assumes "is_field N M a" "0 < N" "0 < M"
  shows "map spectralDeriv_spec (T (map spectralDeriv_spec (T a)))
       = T (map spectralDeriv_spec (T (map spectralDeriv_spec a)))"
proof (rule field_eqI[of N M])
  show "is_field N M (map spectralDeriv_spec (T (map spectralDeriv_spec (T a))))"
    by (intro is_field_map_spec is_field_ddy_val assms)
  show "is_field N M (T (map spectralDeriv_spec (T (map spectralDeriv_spec a))))"
    by (intro is_field_map_spec is_field_ddy_val assms)
next
  fix i j assume ij: "i < N" "j < M"
  have "map spectralDeriv_spec (T (map spectralDeriv_spec (T a))) ! i ! j
      = (\<Sum>m<M. dker M j m * T (map spectralDeriv_spec (T a)) ! i ! m)"
    using is_field_ddy_val[OF assms] ij by (rule nth_map_spec)
  also have "\<dots> = (\<Sum>m<M. dker M j m * (\<Sum>l<N. dker N i l * a ! l ! m))"
    using assms ij by (intro sum.cong) (simp_all add: nth_ddy_val)
  also have "\<dots> = (\<Sum>m<M. \<Sum>l<N. dker N i l * (dker M j m * a ! l ! m))"
    by (simp add: sum_distrib_left mult.left_commute)
  also have "\<dots> = (\<Sum>l<N. \<Sum>m<M. dker N i l * (dker M j m * a ! l ! m))"
    by (rule sum.swap)
  also have "\<dots> = (\<Sum>l<N. dker N i l * (\<Sum>m<M. dker M j m * a ! l ! m))"
    by (simp add: sum_distrib_left)
  also have "\<dots> = (\<Sum>l<N. dker N i l * map spectralDeriv_spec a ! l ! j)"
    using assms ij by (intro sum.cong) (simp_all add: nth_map_spec)
  also have "\<dots> = T (map spectralDeriv_spec (T (map spectralDeriv_spec a))) ! i ! j"
    using is_field_map_spec[OF assms(1)] ij by (rule nth_ddy_val[symmetric])
  finally show "map spectralDeriv_spec (T (map spectralDeriv_spec (T a))) ! i ! j
      = T (map spectralDeriv_spec (T (map spectralDeriv_spec a))) ! i ! j" .
qed

lemma broadcast2_same_shape:
  assumes "is_field N M a" "is_field N M b" "0 < N"
  shows "broadcast2 f a b = Inr (map (\<lambda>i. map (\<lambda>j. f (a ! i ! j) (b ! i ! j)) [0..<M]) [0..<N])"
proof -
  have "map (\<lambda>i. map (\<lambda>j. f (a ! (if N = 1 then 0 else i) ! (if M = 1 then 0 else j))
                         (b ! (if N = 1 then 0 else i) ! (if M = 1 then 0 else j))) [0..<M]) [0..<N]
      = map (\<lambda>i. map (\<lambda>j. f (a ! i ! j) (b ! i ! j)) [0..<M]) [0..<N]"
    by (intro map_cong refl) auto
  then show ?thesis
    using assms by (simp add: broadcast2_def shape_field bdim_def)
qed

section \<open>Maximum of a field\<close>

lemma amax_Max: "concat a \<noteq> [] \<Longrightarrow> amax a = Inr (Max (set (concat a)))"
  by (cases "concat a") (simp_all add: amax_def Max.set_eq_fold[symmetric])

lemma concat_field_nonempty:
  assumes "is_field N M a" "0 < N" "0 < M" shows "concat a \<noteq> []"
proof -
  obtain r rs where a: "a = r # rs" using assms by (cases a) (auto simp: is_field_def)
  then have "r \<noteq> []" using assms by (auto simp: is_field_def)
  then show ?thesis by (simp add: a)
qed

lemma set_concat_field:
  assumes "is_field N M a"
  shows "set (concat a) = {a ! i ! j | i j. i < N \<and> j < M}"
proof -
  have "set (concat a) = (\<Union>i<N. set (a ! i))"
    using assms by (auto simp: is_field_iff set_conv_nth[of a])
  also have "\<dots> = {a ! i ! j | i j. i < N \<and> j < M}"
    using assms by (auto simp: is_field_iff set_conv_nth) 
  finally show ?thesis .
qed

lemma column_T:
  assumes "is_field N M a" "0 < N" "j < M"
  shows "T a ! j = map (\<lambda>row. row ! j) a"
proof -
  have "map (\<lambda>row. row ! j) a = map (\<lambda>i. a ! i ! j) [0..<N]"
    using assms(1) by (subst map_as_upt) (simp add: is_field_iff)
  then show ?thesis using assms by (simp add: T_field)
qed

lemma nth_map_map:
  "is_field N M a \<Longrightarrow> i < N \<Longrightarrow> j < M \<Longrightarrow> map (map f) a ! i ! j = f (a ! i ! j)"
  by (simp add: is_field_iff)

lemma is_field_map_map: "is_field N M a \<Longrightarrow> is_field N M (map (map f) a)"
  by (simp add: is_field_iff)

lemma amax_abs_field:
  assumes "is_field N M a" "0 < N" "0 < M"
  shows "amax (map (map abs) a) = Inr (Max {\<bar>a ! i ! j\<bar> | i j. i < N \<and> j < M})"
proof -
  have f: "is_field N M (map (map abs) a)" using assms(1) by (rule is_field_map_map)
  have "set (concat (map (map abs) a)) = {map (map abs) a ! i ! j | i j. i < N \<and> j < M}"
    using f by (rule set_concat_field)
  also have "\<dots> = {\<bar>a ! i ! j\<bar> | i j. i < N \<and> j < M}"
    using assms(1) by (auto simp: nth_map_map[OF assms(1)]) (metis nth_map_map[OF assms(1)])+
  finally show ?thesis
    using concat_field_nonempty[OF f assms(2,3)] by (simp add: amax_Max)
qed

lemma finite_entries: "finite {f i j | i j. i < (N::nat) \<and> j < (M::nat)}"
proof -
  have "{f i j | i j. i < N \<and> j < M} = (\<lambda>(i, j). f i j) ` ({..<N} \<times> {..<M})" by auto
  then show ?thesis by simp
qed

section \<open>Tabulated arrays and the two-dimensional transforms\<close>

lemma is_field_tab [simp]: "is_field N M (tab N M f)"
  by (simp add: is_field_iff tab_def)

lemma nth_tab [simp]: "i < N \<Longrightarrow> j < M \<Longrightarrow> tab N M f ! i ! j = f i j"
  by (simp add: tab_def)

lemma shape_tab: "0 < N \<Longrightarrow> shape (tab N M f) = (N, M)"
  by (rule shape_field) simp_all

lemma tab_cong: "(\<And>i j. i < N \<Longrightarrow> j < M \<Longrightarrow> f i j = g i j) \<Longrightarrow> tab N M f = tab N M g"
  by (simp add: tab_def)

lemma field_as_tab: "is_field N M a \<Longrightarrow> a = tab N M (\<lambda>i j. a ! i ! j)"
  by (rule field_eqI[of N M]) simp_all

lemma map_map_tab: "map (map h) (tab N M f) = tab N M (\<lambda>i j. h (f i j))"
  by (simp add: tab_def comp_def)

lemma broadcast2_tab:
  assumes "0 < N"
  shows "broadcast2 h (tab N M f) (tab N M g) = Inr (tab N M (\<lambda>i j. h (f i j) (g i j)))"
proof -
  have "broadcast2 h (tab N M f) (tab N M g)
      = Inr (map (\<lambda>i. map (\<lambda>j. h (tab N M f ! i ! j) (tab N M g ! i ! j)) [0..<M]) [0..<N])"
    using assms by (intro broadcast2_same_shape) simp_all
  also have "map (\<lambda>i. map (\<lambda>j. h (tab N M f ! i ! j) (tab N M g ! i ! j)) [0..<M]) [0..<N]
      = tab N M (\<lambda>i j. h (f i j) (g i j))"
    unfolding tab_def[of N M "\<lambda>i j. h (f i j) (g i j)"] by (intro map_cong refl) simp
  finally show ?thesis .
qed

lemma fft2_tab:
  assumes "0 < N" "0 < M"
  shows "fft2 (tab N M f) = Inr (tab N M (\<lambda>k l. \<Sum>a<N. \<Sum>b<M.
           f a b * twiddle N (- (int k * int a)) * twiddle M (- (int l * int b))))"
proof -
  have "(\<Sum>a<N. \<Sum>b<M. tab N M f ! a ! b * twiddle N (- (int k * int a)) * twiddle M (- (int l * int b)))
      = (\<Sum>a<N. \<Sum>b<M. f a b * twiddle N (- (int k * int a)) * twiddle M (- (int l * int b)))" for k l
    by (intro sum.cong refl) simp
  then show ?thesis
    using assms by (simp add: fft2_def shape_tab sum_list_upt) (simp add: tab_def)
qed

lemma ifft2_tab:
  assumes "0 < N" "0 < M"
  shows "ifft2 (tab N M f) = Inr (tab N M (\<lambda>a b. (\<Sum>k<N. \<Sum>l<M.
           f k l * twiddle N (int k * int a) * twiddle M (int l * int b)) / of_nat (N * M)))"
proof -
  have "(\<Sum>k<N. \<Sum>l<M. tab N M f ! k ! l * twiddle N (int k * int a) * twiddle M (int l * int b))
      = (\<Sum>k<N. \<Sum>l<M. f k l * twiddle N (int k * int a) * twiddle M (int l * int b))" for a b
    by (intro sum.cong refl) simp
  then show ?thesis
    using assms by (simp add: ifft2_def shape_tab sum_list_upt) (simp add: tab_def)
qed

lemma meshgrid_fftfreq:
  "meshgrid (reshape_col (map g [0..<N])) (reshape_row (map g [0..<N]))
     = (tab N N (\<lambda>i j. g j), tab N N (\<lambda>i j. g i))"
proof -
  have "concat (map (\<lambda>v. [v]) xs) = xs" for xs :: "'b list" by (induction xs) simp_all
  then show ?thesis
    by (simp add: meshgrid_def reshape_col_def reshape_row_def Let_def tab_def comp_def)
qed

lemma two_pi_i_freq:
  "two_pi_i (tab N N (\<lambda>i j. real_of_int (fft_index N (h i j)) * (1 / real N)))
     = tab N N (\<lambda>i j. cfac N (h i j))"
  unfolding two_pi_i_def map_map_tab
  by (rule tab_cong) (simp add: cfac_def mult_ac)

lemma okubo_partials_formula:
  assumes "is_field N N psi" "0 < N"
  shows "okubo_partials psi
       = Inr (tab N N (psi_xy_spec psi), tab N N (psi_xx_spec psi), tab N N (psi_yy_spec psi))"
proof -
  have len: "length psi = N" using assms(1) by (simp add: is_field_iff)
  have sh: "fst (shape psi) = N" using shape_field[OF assms] by simp
  let ?fr = "\<lambda>k. real_of_int (fft_index N k) * (1 / real N)"
  have mg: "meshgrid (reshape_col (map ?fr [0..<N])) (reshape_row (map ?fr [0..<N]))
      = (tab N N (\<lambda>i j. ?fr j), tab N N (\<lambda>i j. ?fr i))"
    by (rule meshgrid_fftfreq)
  have kx: "two_pi_i (tab N N (\<lambda>i j. ?fr j)) = tab N N (\<lambda>i j. cfac N j)"
    by (rule two_pi_i_freq[of N "\<lambda>i j. j"])
  have ky: "two_pi_i (tab N N (\<lambda>i j. ?fr i)) = tab N N (\<lambda>i j. cfac N i)"
    by (rule two_pi_i_freq[of N "\<lambda>i j. i"])
  have "map (map complex_of_real) psi = tab N N (\<lambda>a b. complex_of_real (psi ! a ! b))"
    by (subst field_as_tab[OF assms(1)]) (simp only: map_map_tab)
  then have hat: "fft2 (map (map complex_of_real) psi) = Inr (tab N N (psi_hat_spec psi))"
    using assms(2) by (simp add: fft2_tab psi_hat_spec_def dft2_def[abs_def] len)
  have xy: "tab N N (\<lambda>a b. Re ((\<Sum>k<N. \<Sum>l<N. cfac N l * cfac N k * psi_hat_spec psi k l
                 * twiddle N (int k * int a) * twiddle N (int l * int b)) / of_nat (N * N)))
          = tab N N (psi_xy_spec psi)"
    by (simp add: psi_xy_spec_def[abs_def] idft2_def len)
  have xx: "tab N N (\<lambda>a b. Re ((\<Sum>k<N. \<Sum>l<N. (cfac N l)\<^sup>2 * psi_hat_spec psi k l
                 * twiddle N (int k * int a) * twiddle N (int l * int b)) / of_nat (N * N)))
          = tab N N (psi_xx_spec psi)"
    by (simp add: psi_xx_spec_def[abs_def] idft2_def len)
  have yy: "tab N N (\<lambda>a b. Re ((\<Sum>k<N. \<Sum>l<N. (cfac N k)\<^sup>2 * psi_hat_spec psi k l
                 * twiddle N (int k * int a) * twiddle N (int l * int b)) / of_nat (N * N)))
          = tab N N (psi_yy_spec psi)"
    by (simp add: psi_yy_spec_def[abs_def] idft2_def len)
  show ?thesis
    unfolding okubo_partials_def Let_def sh fftfreq_eq[OF assms(2)] then_do_def sum.case mg
      prod.case kx ky hat broadcast2_tab[OF assms(2)] map_map_tab
      ifft2_tab[OF assms(2) assms(2)] np_real_def xy xx yy ..
qed

section \<open>Roots of unity\<close>

lemma twiddle_power: "twiddle N d ^ k = twiddle N (int k * d)"
  by (simp add: twiddle_def DeMoivre mult_ac)

lemma twiddle_period:
  assumes "0 < N" shows "twiddle N (e + int N * z) = twiddle N e"
proof -
  have "2 * pi * real_of_int (int N * z) / real N = 2 * pi * real_of_int z"
    using assms by simp
  then have "twiddle N (int N * z) = cis (2 * pi * real_of_int z)"
    unfolding twiddle_def by (rule arg_cong)
  also have "\<dots> = 1" by (rule cis_multiple_2pi) simp
  finally show ?thesis by (simp add: twiddle_add)
qed

lemma twiddle_neq_1:
  assumes "0 < N" "d \<noteq> 0" "\<bar>d\<bar> < int N"
  shows "twiddle N d \<noteq> 1"
proof
  assume "twiddle N d = 1"
  then have "cos (2 * pi * real_of_int d / real N) = 1"
    by (simp add: twiddle_def complex_eq_iff)
  then obtain m :: int where m: "2 * pi * real_of_int d / real N = real_of_int m * 2 * pi"
    by (subst (asm) cos_one_2pi_int) blast
  then have "real_of_int d = real_of_int (m * int N)"
    using assms(1) by (simp add: field_simps)
  then have "d = m * int N" by (simp only: of_int_eq_iff)
  then have "\<bar>d\<bar> = \<bar>m\<bar> * int N" by (simp add: abs_mult)
  with assms(2,3) show False
    by (cases "m = 0") (auto simp: mult_less_cancel_right2)
qed

lemma twiddle_orth:
  assumes "0 < N" "\<bar>d\<bar> < int N"
  shows "(\<Sum>k<N. twiddle N (int k * d)) = (if d = 0 then of_nat N else 0)"
proof (cases "d = 0")
  case True
  then show ?thesis by simp
next
  case False
  have ne: "twiddle N d \<noteq> 1" using assms(1) False assms(2) by (rule twiddle_neq_1)
  have "twiddle N d ^ N = twiddle N (0 + int N * d)" by (simp add: twiddle_power)
  also have "\<dots> = 1" using assms(1) by (simp only: twiddle_period twiddle_0)
  finally have one: "twiddle N d ^ N = 1" .
  have "(\<Sum>k<N. twiddle N (int k * d)) = (\<Sum>k<N. twiddle N d ^ k)"
    by (simp add: twiddle_power)
  also have "\<dots> = (twiddle N d ^ N - 1) / (twiddle N d - 1)"
    using ne by (rule geometric_sum)
  finally show ?thesis using False by (simp add: one)
qed

lemma twiddle_cnj: "cnj (twiddle N e) = twiddle N (- e)"
  by (simp add: twiddle_def cis_cnj)

lemma cfac_cnj: "cnj (cfac N k) = - cfac N k"
  by (simp add: cfac_def)

section \<open>The derivative kernel: realness, the Nyquist mode, composition\<close>

lemma twiddle_reflect:
  assumes "k < N"
  shows "twiddle N (int ((N - k) mod N) * d) = twiddle N (- (int k * d))"
proof (cases "k = 0")
  case True
  then show ?thesis by simp
next
  case False
  then have "(N - k) mod N = N - k" using assms by simp
  then have "int ((N - k) mod N) * d = - (int k * d) + int N * d"
    using assms by (simp add: of_nat_diff algebra_simps)
  moreover have "0 < N" using assms by simp
  ultimately show ?thesis by (simp only: twiddle_period)
qed

lemma finite_modes [simp]: "finite (modes N)"
  by (simp add: modes_def)

lemma modes_odd: "odd N \<Longrightarrow> modes N = {..<N}"
  by (auto simp: modes_def)

lemma modes_even:
  assumes "even N" "0 < N"
  shows "{..<N} = insert (N div 2) (modes N)" "N div 2 \<notin> modes N"
  using assms by (auto simp: modes_def elim!: evenE)

lemma fft_index_reflect_modes:
  assumes "k \<in> modes N"
  shows "fft_index N ((N - k) mod N) = - fft_index N k"
proof (cases "k = 0")
  case True
  then show ?thesis using assms by (simp add: fft_index_def modes_def)
next
  case False
  then have "(N - k) mod N = N - k" using assms by (simp add: modes_def)
  then show ?thesis using assms False by (auto simp: fft_index_def modes_def)
qed

lemma sum_reflect_modes:
  "(\<Sum>k\<in>modes N. g ((N - k) mod N)) = (\<Sum>k\<in>modes N. g k)" for g :: "nat \<Rightarrow> complex"
  by (rule sum.reindex_bij_witness[of _ "\<lambda>k. (N - k) mod N" "\<lambda>k. (N - k) mod N"])
     (auto simp: mod_if modes_def)

lemma E1K_real: "cnj (E1K N n m) = E1K N n m"
proof -
  let ?d = "int n - int m"
  let ?g = "\<lambda>k. cfac N k * twiddle N (int k * ?d)"
  have "cnj (E1K N n m) = (\<Sum>k\<in>modes N. - cfac N k * twiddle N (- (int k * ?d))) / of_nat N"
    by (simp add: E1K_def cfac_cnj twiddle_cnj)
  also have "(\<Sum>k\<in>modes N. - cfac N k * twiddle N (- (int k * ?d)))
      = (\<Sum>k\<in>modes N. ?g ((N - k) mod N))"
  proof (rule sum.cong[OF refl])
    fix k assume k: "k \<in> modes N"
    then have kN: "k < N" by (simp add: modes_def)
    have "cfac N ((N - k) mod N) = - cfac N k"
      by (simp add: cfac_def fft_index_reflect_modes[OF k])
    then show "- cfac N k * twiddle N (- (int k * ?d)) = ?g ((N - k) mod N)"
      by (simp add: twiddle_reflect[OF kN])
  qed
  also have "\<dots> = (\<Sum>k\<in>modes N. ?g k)" by (rule sum_reflect_modes)
  finally show ?thesis by (simp add: E1K_def)
qed

lemma twiddle_nyquist:
  assumes "even N" "0 < N"
  shows "twiddle N (int (N div 2) * (int n - int m)) = (- 1) ^ n * (- 1) ^ m"
proof -
  have h: "twiddle N (int (N div 2)) = - 1"
  proof -
    have "2 * pi * real_of_int (int (N div 2)) / real N = pi"
      using assms by (auto elim!: evenE)
    then show ?thesis unfolding twiddle_def by (simp only: cis_pi)
  qed
  have p: "twiddle N (int (N div 2) * int j) = (- 1) ^ j" for j
    using twiddle_power[of N "int (N div 2)" j] by (simp add: h mult.commute)
  have "twiddle N (int (N div 2) * (int n - int m))
      = twiddle N (int (N div 2) * int n) * twiddle N (- (int (N div 2) * int m))"
    by (simp add: twiddle_add[symmetric] right_diff_distrib)
  also have "\<dots> = (- 1) ^ n * cnj ((- 1) ^ m)"
    by (simp only: p twiddle_cnj[symmetric])
  finally show ?thesis by simp
qed

lemma cfac_nyquist:
  assumes "even N" "0 < N"
  shows "cfac N (N div 2) = - \<i> * complex_of_real pi"
proof -
  have "fft_index N (N div 2) = - int (N div 2)"
    using assms by (auto simp: fft_index_def elim!: evenE)
  moreover have "2 * real (N div 2) = real N" using assms(1) by (auto elim!: evenE)
  ultimately show ?thesis using assms(2) by (simp add: cfac_def field_simps)
qed

lemma E1_split:
  assumes "0 < N"
  shows "E1 N n m = E1K N n m - \<i> * complex_of_real (nyq N * (- 1) ^ n * (- 1) ^ m)"
proof (cases "even N")
  case True
  let ?g = "\<lambda>k. cfac N k * twiddle N (int k * (int n - int m))"
  have "(\<Sum>k<N. ?g k) = ?g (N div 2) + (\<Sum>k\<in>modes N. ?g k)"
    unfolding modes_even(1)[OF True assms] using modes_even(2)[OF True assms] by simp
  then have "E1 N n m = ?g (N div 2) / of_nat N + E1K N n m"
    by (simp add: E1_def E1K_def add_divide_distrib)
  also have "?g (N div 2) / of_nat N = - \<i> * complex_of_real (nyq N * (- 1) ^ n * (- 1) ^ m)"
    using True by (simp add: cfac_nyquist[OF True assms] twiddle_nyquist[OF True assms] nyq_def)
  finally show ?thesis by simp
next
  case False
  then show ?thesis by (simp add: E1_def E1K_def modes_odd nyq_def)
qed

lemma E2_split:
  assumes "0 < N"
  shows "E2 N n m = E2K N n m - complex_of_real (nyq N * pi * (- 1) ^ n * (- 1) ^ m)"
proof (cases "even N")
  case True
  let ?g = "\<lambda>k. (cfac N k)\<^sup>2 * twiddle N (int k * (int n - int m))"
  have "(\<Sum>k<N. ?g k) = ?g (N div 2) + (\<Sum>k\<in>modes N. ?g k)"
    unfolding modes_even(1)[OF True assms] using modes_even(2)[OF True assms] by simp
  then have "E2 N n m = ?g (N div 2) / of_nat N + E2K N n m"
    by (simp add: E2_def E2K_def add_divide_distrib)
  also have "?g (N div 2) / of_nat N = - complex_of_real (nyq N * pi * (- 1) ^ n * (- 1) ^ m)"
  proof -
    have "(cfac N (N div 2))\<^sup>2 = - (complex_of_real pi * complex_of_real pi)"
      by (simp add: cfac_nyquist[OF True assms] complex_eq_iff power2_eq_square)
    then show ?thesis
      using True by (simp add: twiddle_nyquist[OF True assms] nyq_def)
  qed
  finally show ?thesis by simp
next
  case False
  then show ?thesis by (simp add: E2_def E2K_def modes_odd nyq_def)
qed

lemma E1K_dker:
  assumes "0 < N" shows "E1K N n m = complex_of_real (dker N n m)"
proof -
  have "Im (E1K N n m) = 0" using E1K_real[of N n m] by (simp add: complex_eq_iff)
  moreover have "Re (E1K N n m) = dker N n m"
    by (simp add: dker_def E1_split[OF assms])
  ultimately show ?thesis by (simp add: complex_eq_iff)
qed

lemma E1_dker_nyq:
  assumes "0 < N"
  shows "E1 N n m = complex_of_real (dker N n m)
                    - \<i> * complex_of_real (nyq N * (- 1) ^ n * (- 1) ^ m)"
  by (simp only: E1_split[OF assms] E1K_dker[OF assms])

lemma E1K_compose:
  assumes "0 < N"
  shows "(\<Sum>m<N. E1K N j m * E1K N m b) = E2K N j b"
proof -
  let ?c = "cfac N" and ?K = "modes N"
  have tm: "E1K N j m * E1K N m b
      = (\<Sum>k\<in>?K. \<Sum>k'\<in>?K. ?c k * ?c k' * twiddle N (int k * int j - int k' * int b)
                       * twiddle N (int m * (int k' - int k))) / (of_nat N * of_nat N)" for m
  proof -
    have e: "twiddle N (int k * (int j - int m)) * twiddle N (int k' * (int m - int b))
        = twiddle N (int k * int j - int k' * int b) * twiddle N (int m * (int k' - int k))" for k k'
      by (simp add: twiddle_add[symmetric] algebra_simps)
    have p: "(?c k * twiddle N (int k * (int j - int m))) * (?c k' * twiddle N (int k' * (int m - int b)))
        = ?c k * ?c k' * twiddle N (int k * int j - int k' * int b) * twiddle N (int m * (int k' - int k))" for k k'
    proof -
      have "(?c k * twiddle N (int k * (int j - int m))) * (?c k' * twiddle N (int k' * (int m - int b)))
          = ?c k * ?c k' * (twiddle N (int k * (int j - int m)) * twiddle N (int k' * (int m - int b)))"
        by (simp only: mult_ac)
      also have "\<dots> = ?c k * ?c k' * (twiddle N (int k * int j - int k' * int b) * twiddle N (int m * (int k' - int k)))"
        by (simp only: e)
      finally show ?thesis by (simp only: mult.assoc)
    qed
    show ?thesis
      unfolding E1K_def by (simp only: times_divide_times_eq sum_product p)
  qed
  have "(\<Sum>m<N. E1K N j m * E1K N m b)
      = (\<Sum>m<N. \<Sum>k\<in>?K. \<Sum>k'\<in>?K. ?c k * ?c k' * twiddle N (int k * int j - int k' * int b)
                       * twiddle N (int m * (int k' - int k))) / (of_nat N * of_nat N)"
    by (simp add: tm sum_divide_distrib)
  also have "(\<Sum>m<N. \<Sum>k\<in>?K. \<Sum>k'\<in>?K. ?c k * ?c k' * twiddle N (int k * int j - int k' * int b)
                       * twiddle N (int m * (int k' - int k)))
      = (\<Sum>k\<in>?K. \<Sum>m<N. \<Sum>k'\<in>?K. ?c k * ?c k' * twiddle N (int k * int j - int k' * int b)
                       * twiddle N (int m * (int k' - int k)))"
    by (rule sum.swap)
  also have "\<dots> = (\<Sum>k\<in>?K. \<Sum>k'\<in>?K. \<Sum>m<N. ?c k * ?c k' * twiddle N (int k * int j - int k' * int b)
                       * twiddle N (int m * (int k' - int k)))"
    by (rule sum.cong[OF refl]) (rule sum.swap)
  also have "\<dots> = (\<Sum>k\<in>?K. \<Sum>k'\<in>?K. ?c k * ?c k' * twiddle N (int k * int j - int k' * int b)
                       * (if k' = k then of_nat N else 0))"
  proof (rule sum.cong[OF refl], rule sum.cong[OF refl])
    fix k k' assume "k \<in> ?K" "k' \<in> ?K"
    then have "\<bar>int k' - int k\<bar> < int N" by (auto simp: modes_def)
    from twiddle_orth[OF assms this]
    show "(\<Sum>m<N. ?c k * ?c k' * twiddle N (int k * int j - int k' * int b)
                       * twiddle N (int m * (int k' - int k)))
        = ?c k * ?c k' * twiddle N (int k * int j - int k' * int b) * (if k' = k then of_nat N else 0)"
      by (simp add: sum_distrib_left[symmetric])
  qed
  also have "\<dots> = (\<Sum>k\<in>?K. (?c k)\<^sup>2 * twiddle N (int k * (int j - int b)) * of_nat N)"
  proof (rule sum.cong[OF refl])
    fix k assume "k \<in> ?K"
    then have "(\<Sum>k'\<in>?K. ?c k * ?c k' * twiddle N (int k * int j - int k' * int b)
                       * (if k' = k then of_nat N else 0))
       = ?c k * ?c k * twiddle N (int k * int j - int k * int b) * of_nat N"
      by (simp add: sum.delta if_distrib[of "\<lambda>x. _ * x"] cong: if_cong)
    then show "(\<Sum>k'\<in>?K. ?c k * ?c k' * twiddle N (int k * int j - int k' * int b)
                       * (if k' = k then of_nat N else 0))
       = (?c k)\<^sup>2 * twiddle N (int k * (int j - int b)) * of_nat N"
      by (simp add: power2_eq_square right_diff_distrib)
  qed
  finally show ?thesis
    using assms by (simp add: E2K_def sum_distrib_right[symmetric])
qed

lemma dker_compose_nyq:
  assumes "0 < N"
  shows "(\<Sum>m<N. dker N j m * dker N m b) = d2ker N j b + nyq N * pi * (- 1) ^ j * (- 1) ^ b"
proof -
  have "complex_of_real (\<Sum>m<N. dker N j m * dker N m b) = (\<Sum>m<N. E1K N j m * E1K N m b)"
    by (simp add: E1K_dker[OF assms])
  also have "\<dots> = E2K N j b" using assms by (rule E1K_compose)
  also have "\<dots> = E2 N j b + complex_of_real (nyq N * pi * (- 1) ^ j * (- 1) ^ b)"
    by (simp add: E2_split[OF assms])
  finally have "Re (complex_of_real (\<Sum>m<N. dker N j m * dker N m b))
      = Re (E2 N j b + complex_of_real (nyq N * pi * (- 1) ^ j * (- 1) ^ b))"
    by (rule arg_cong)
  then show ?thesis by (simp only: Re_complex_of_real d2ker_def plus_complex.sel)
qed

lemma alt_sum_row:
  "is_field N M a \<Longrightarrow> i < N \<Longrightarrow> alt_sum (a ! i) = (\<Sum>c<M. (- 1) ^ c * a ! i ! c)"
  by (simp add: alt_sum_def is_field_iff)

lemma alt_sum_col:
  assumes "is_field N M a" "0 < N" "j < M"
  shows "alt_sum (T a ! j) = (\<Sum>r<N. (- 1) ^ r * a ! r ! j)"
proof -
  have f: "is_field M N (T a)" using assms(1,2) by (rule is_field_T)
  have "alt_sum (T a ! j) = (\<Sum>r<N. (- 1) ^ r * T a ! j ! r)"
    using f assms(3) by (rule alt_sum_row)
  also have "\<dots> = (\<Sum>r<N. (- 1) ^ r * a ! r ! j)"
    using assms by (intro sum.cong refl) (simp add: nth_T)
  finally show ?thesis .
qed

lemma nyq_row:
  assumes "is_field N N psi" "odd N \<or> nyquist_free psi" "a < N"
  shows "nyq N * alt_sum (psi ! a) = 0"
  using assms by (auto simp: nyq_def nyquist_free_def list_all_length is_field_iff)

lemma nyq_col:
  assumes "is_field N N psi" "odd N \<or> nyquist_free psi" "b < N"
  shows "nyq N * alt_sum (T psi ! b) = 0"
proof (cases "odd N")
  case True
  then show ?thesis by (simp add: nyq_def)
next
  case False
  have N: "0 < N" using assms(3) by simp
  have "length (T psi) = N" using is_field_T[OF assms(1) N] by (simp add: is_field_iff)
  then show ?thesis
    using False assms(2,3) by (auto simp: nyquist_free_def list_all_length)
qed

section \<open>The second partials of getOkuboWeiss as kernels\<close>

lemma sum4_swap:
  fixes G :: "nat \<Rightarrow> nat \<Rightarrow> nat \<Rightarrow> nat \<Rightarrow> complex"
  shows "(\<Sum>k<K. \<Sum>l<L. \<Sum>r<R. \<Sum>c<C. G k l r c) = (\<Sum>r<R. \<Sum>c<C. \<Sum>k<K. \<Sum>l<L. G k l r c)"
proof -
  have "(\<Sum>k<K. \<Sum>l<L. \<Sum>r<R. \<Sum>c<C. G k l r c) = (\<Sum>k<K. \<Sum>r<R. \<Sum>l<L. \<Sum>c<C. G k l r c)"
    by (rule sum.cong[OF refl]) (rule sum.swap)
  also have "\<dots> = (\<Sum>r<R. \<Sum>k<K. \<Sum>l<L. \<Sum>c<C. G k l r c)"
    by (rule sum.swap)
  also have "\<dots> = (\<Sum>r<R. \<Sum>k<K. \<Sum>c<C. \<Sum>l<L. G k l r c)"
    by (rule sum.cong[OF refl], rule sum.cong[OF refl], rule sum.swap)
  also have "\<dots> = (\<Sum>r<R. \<Sum>c<C. \<Sum>k<K. \<Sum>l<L. G k l r c)"
    by (rule sum.cong[OF refl]) (rule sum.swap)
  finally show ?thesis .
qed

lemma idft2_dft2_sep:
  "idft2 N (\<lambda>k l. p k * q l * dft2 N x k l) a b
   = (\<Sum>r<N. \<Sum>c<N. x r c * ((\<Sum>k<N. p k * twiddle N (int k * (int a - int r))) / of_nat N)
                             * ((\<Sum>l<N. q l * twiddle N (int l * (int b - int c))) / of_nat N))"
proof -
  let ?G = "\<lambda>k l r c. x r c * (p k * twiddle N (int k * (int a - int r)))
                             * (q l * twiddle N (int l * (int b - int c)))"
  have g: "p k * q l * (x r c * twiddle N (- (int k * int r)) * twiddle N (- (int l * int c)))
             * twiddle N (int k * int a) * twiddle N (int l * int b) = ?G k l r c" for k l r c
  proof -
    have "p k * q l * (x r c * twiddle N (- (int k * int r)) * twiddle N (- (int l * int c)))
             * twiddle N (int k * int a) * twiddle N (int l * int b)
        = x r c * (p k * (twiddle N (- (int k * int r)) * twiddle N (int k * int a)))
                * (q l * (twiddle N (- (int l * int c)) * twiddle N (int l * int b)))"
      by (simp only: mult_ac)
    then show ?thesis by (simp only: twiddle_shift)
  qed
  have "(\<Sum>k<N. \<Sum>l<N. p k * q l * dft2 N x k l * twiddle N (int k * int a) * twiddle N (int l * int b))
      = (\<Sum>k<N. \<Sum>l<N. \<Sum>r<N. \<Sum>c<N. ?G k l r c)"
    unfolding dft2_def by (simp only: sum_distrib_left sum_distrib_right g)
  also have "\<dots> = (\<Sum>r<N. \<Sum>c<N. \<Sum>k<N. \<Sum>l<N. ?G k l r c)"
    by (rule sum4_swap)
  also have "\<dots> = (\<Sum>r<N. \<Sum>c<N. x r c * (\<Sum>k<N. p k * twiddle N (int k * (int a - int r)))
                             * (\<Sum>l<N. q l * twiddle N (int l * (int b - int c))))"
  proof (rule sum.cong[OF refl], rule sum.cong[OF refl])
    fix r c
    let ?f = "\<lambda>k. p k * twiddle N (int k * (int a - int r))"
    let ?h = "\<lambda>l. q l * twiddle N (int l * (int b - int c))"
    have "x r c * (\<Sum>k<N. ?f k) * (\<Sum>l<N. ?h l) = x r c * ((\<Sum>k<N. ?f k) * (\<Sum>l<N. ?h l))"
      by (rule mult.assoc)
    also have "(\<Sum>k<N. ?f k) * (\<Sum>l<N. ?h l) = (\<Sum>k<N. \<Sum>l<N. ?f k * ?h l)"
      by (rule sum_product)
    also have "x r c * (\<Sum>k<N. \<Sum>l<N. ?f k * ?h l) = (\<Sum>k<N. \<Sum>l<N. x r c * (?f k * ?h l))"
      by (simp only: sum_distrib_left)
    also have "\<dots> = (\<Sum>k<N. \<Sum>l<N. ?G k l r c)"
      by (simp only: mult.assoc)
    finally show "(\<Sum>k<N. \<Sum>l<N. ?G k l r c)
        = x r c * (\<Sum>k<N. p k * twiddle N (int k * (int a - int r)))
                * (\<Sum>l<N. q l * twiddle N (int l * (int b - int c)))"
      by (rule sym)
  qed
  finally have main: "(\<Sum>k<N. \<Sum>l<N. p k * q l * dft2 N x k l * twiddle N (int k * int a) * twiddle N (int l * int b))
      = (\<Sum>r<N. \<Sum>c<N. x r c * (\<Sum>k<N. p k * twiddle N (int k * (int a - int r)))
                             * (\<Sum>l<N. q l * twiddle N (int l * (int b - int c))))" .
  have "idft2 N (\<lambda>k l. p k * q l * dft2 N x k l) a b
      = (\<Sum>r<N. \<Sum>c<N. x r c * (\<Sum>k<N. p k * twiddle N (int k * (int a - int r)))
                             * (\<Sum>l<N. q l * twiddle N (int l * (int b - int c)))) / of_nat (N * N)"
    unfolding idft2_def main ..
  also have "\<dots> = (\<Sum>r<N. \<Sum>c<N. x r c * (\<Sum>k<N. p k * twiddle N (int k * (int a - int r)))
                             * (\<Sum>l<N. q l * twiddle N (int l * (int b - int c))) / of_nat (N * N))"
    by (simp only: sum_divide_distrib)
  also have "\<dots> = (\<Sum>r<N. \<Sum>c<N. x r c * ((\<Sum>k<N. p k * twiddle N (int k * (int a - int r))) / of_nat N)
                             * ((\<Sum>l<N. q l * twiddle N (int l * (int b - int c))) / of_nat N))"
    by (intro sum.cong refl) simp
  finally show ?thesis .
qed

lemma delta_kernel:
  assumes "0 < N" "a < N" "r < N"
  shows "(\<Sum>k<N. 1 * twiddle N (int k * (int a - int r))) / of_nat N = (if r = a then 1 else 0)"
proof -
  have "\<bar>int a - int r\<bar> < int N" using assms by auto
  from twiddle_orth[OF assms(1) this] show ?thesis using assms(1) by auto
qed

lemma psi_xx_kernel:
  assumes "is_field N N psi" "0 < N" "a < N" "b < N"
  shows "psi_xx_spec psi a b = (\<Sum>c<N. d2ker N b c * psi ! a ! c)"
proof -
  have len: "length psi = N" using assms(1) by (simp add: is_field_iff)
  let ?x = "\<lambda>r c. complex_of_real (psi ! r ! c)"
  have "idft2 N (\<lambda>r c. (cfac N c)\<^sup>2 * dft2 N ?x r c) a b
      = idft2 N (\<lambda>r c. 1 * (cfac N c)\<^sup>2 * dft2 N ?x r c) a b"
    by simp
  also have "\<dots> = (\<Sum>r<N. \<Sum>c<N. ?x r c
        * ((\<Sum>k<N. 1 * twiddle N (int k * (int a - int r))) / of_nat N) * E2 N b c)"
    unfolding E2_def by (rule idft2_dft2_sep)
  also have "\<dots> = (\<Sum>r<N. \<Sum>c<N. ?x r c * (if r = a then 1 else 0) * E2 N b c)"
    using assms(2,3) by (intro sum.cong refl) (simp only: delta_kernel lessThan_iff)
  also have "\<dots> = (\<Sum>r<N. if r = a then (\<Sum>c<N. ?x r c * E2 N b c) else 0)"
    by (intro sum.cong refl) simp
  also have "\<dots> = (\<Sum>c<N. ?x a c * E2 N b c)"
    using assms(3) by (simp add: sum.delta)
  finally have "psi_xx_spec psi a b = Re (\<Sum>c<N. ?x a c * E2 N b c)"
    by (simp only: psi_xx_spec_def Let_def psi_hat_spec_def len)
  then show ?thesis
    by (simp add: d2ker_def mult.commute)
qed

lemma psi_yy_kernel:
  assumes "is_field N N psi" "0 < N" "a < N" "b < N"
  shows "psi_yy_spec psi a b = (\<Sum>r<N. d2ker N a r * psi ! r ! b)"
proof -
  have len: "length psi = N" using assms(1) by (simp add: is_field_iff)
  let ?x = "\<lambda>r c. complex_of_real (psi ! r ! c)"
  have "idft2 N (\<lambda>r c. (cfac N r)\<^sup>2 * dft2 N ?x r c) a b
      = idft2 N (\<lambda>r c. (cfac N r)\<^sup>2 * 1 * dft2 N ?x r c) a b"
    by simp
  also have "\<dots> = (\<Sum>r<N. \<Sum>c<N. ?x r c * E2 N a r
        * ((\<Sum>l<N. 1 * twiddle N (int l * (int b - int c))) / of_nat N))"
    unfolding E2_def by (rule idft2_dft2_sep)
  also have "\<dots> = (\<Sum>r<N. \<Sum>c<N. ?x r c * E2 N a r * (if c = b then 1 else 0))"
    using assms(2,4) by (intro sum.cong refl) (simp only: delta_kernel lessThan_iff)
  also have "\<dots> = (\<Sum>r<N. \<Sum>c<N. if c = b then ?x r c * E2 N a r else 0)"
    by (intro sum.cong refl) simp
  also have "\<dots> = (\<Sum>r<N. ?x r b * E2 N a r)"
    using assms(4) by (simp add: sum.delta)
  finally have "psi_yy_spec psi a b = Re (\<Sum>r<N. ?x r b * E2 N a r)"
    by (simp only: psi_yy_spec_def Let_def psi_hat_spec_def len)
  then show ?thesis
    by (simp add: d2ker_def mult.commute)
qed

lemma Re_kernel_product:
  "Re (complex_of_real x * (complex_of_real d - \<i> * complex_of_real v)
         * (complex_of_real d' - \<i> * complex_of_real v'))
   = x * d * d' - x * v * v'"
  by (simp add: algebra_simps)

lemma psi_xy_kernel_nyq:
  assumes "is_field N N psi" "0 < N"
  shows "psi_xy_spec psi a b
       = (\<Sum>r<N. \<Sum>c<N. psi ! r ! c * dker N a r * dker N b c)
         - nyq N * (- 1) ^ a * (- 1) ^ b * (\<Sum>r<N. (- 1) ^ r * (nyq N * alt_sum (psi ! r)))"
proof -
  have len: "length psi = N" using assms(1) by (simp add: is_field_iff)
  let ?x = "\<lambda>r c. complex_of_real (psi ! r ! c)"
  let ?v = "\<lambda>n m. nyq N * (- 1) ^ n * (- 1) ^ m"
  have "idft2 N (\<lambda>r c. cfac N c * cfac N r * dft2 N ?x r c) a b
      = idft2 N (\<lambda>r c. cfac N r * cfac N c * dft2 N ?x r c) a b"
    by (simp only: mult.commute[of "cfac N _" "cfac N _"])
  also have "\<dots> = (\<Sum>r<N. \<Sum>c<N. ?x r c * E1 N a r * E1 N b c)"
    unfolding E1_def by (rule idft2_dft2_sep)
  finally have "psi_xy_spec psi a b = Re (\<Sum>r<N. \<Sum>c<N. ?x r c * E1 N a r * E1 N b c)"
    by (simp only: psi_xy_spec_def Let_def psi_hat_spec_def len)
  also have "\<dots> = (\<Sum>r<N. \<Sum>c<N. Re (?x r c * E1 N a r * E1 N b c))"
    by simp
  also have "\<dots> = (\<Sum>r<N. \<Sum>c<N. psi ! r ! c * dker N a r * dker N b c
                                  - psi ! r ! c * ?v a r * ?v b c)"
    by (simp only: E1_dker_nyq[OF assms(2)] Re_kernel_product)
  also have "\<dots> = (\<Sum>r<N. \<Sum>c<N. psi ! r ! c * dker N a r * dker N b c)
                    - (\<Sum>r<N. \<Sum>c<N. psi ! r ! c * ?v a r * ?v b c)"
    by (simp only: sum_subtractf)
  also have "(\<Sum>r<N. \<Sum>c<N. psi ! r ! c * ?v a r * ?v b c)
      = (\<Sum>r<N. nyq N * (- 1) ^ a * (- 1) ^ b * ((- 1) ^ r * (nyq N * alt_sum (psi ! r))))"
  proof (rule sum.cong[OF refl])
    fix r assume "r \<in> {..<N}"
    then have r: "r < N" by simp
    have "(\<Sum>c<N. psi ! r ! c * ?v a r * ?v b c)
        = (\<Sum>c<N. (nyq N * (- 1) ^ a * (- 1) ^ b * (- 1) ^ r * nyq N) * ((- 1) ^ c * psi ! r ! c))"
      by (intro sum.cong refl) (simp add: mult_ac)
    also have "\<dots> = (nyq N * (- 1) ^ a * (- 1) ^ b * (- 1) ^ r * nyq N) * alt_sum (psi ! r)"
      by (simp only: sum_distrib_left[symmetric] alt_sum_row[OF assms(1) r])
    finally show "(\<Sum>c<N. psi ! r ! c * ?v a r * ?v b c)
        = nyq N * (- 1) ^ a * (- 1) ^ b * ((- 1) ^ r * (nyq N * alt_sum (psi ! r)))"
      by (simp add: mult_ac)
  qed
  finally show ?thesis by (simp only: sum_distrib_left)
qed

lemma ddx_ddx_val:
  assumes "is_field N N psi" "odd N \<or> nyquist_free psi"
  shows "map spectralDeriv_spec (map spectralDeriv_spec psi) = tab N N (psi_xx_spec psi)"
proof (rule field_eqI[of N N])
  show "is_field N N (map spectralDeriv_spec (map spectralDeriv_spec psi))"
    by (intro is_field_map_spec assms(1))
  show "is_field N N (tab N N (psi_xx_spec psi))" by simp
next
  fix a b assume ab: "a < N" "b < N"
  then have N: "0 < N" by simp
  have "map spectralDeriv_spec (map spectralDeriv_spec psi) ! a ! b
      = (\<Sum>m<N. dker N b m * map spectralDeriv_spec psi ! a ! m)"
    using is_field_map_spec[OF assms(1)] ab by (rule nth_map_spec)
  also have "\<dots> = (\<Sum>m<N. dker N b m * (\<Sum>c<N. dker N m c * psi ! a ! c))"
    using assms(1) ab by (intro sum.cong refl) (simp add: nth_map_spec)
  also have "\<dots> = (\<Sum>m<N. \<Sum>c<N. dker N b m * dker N m c * psi ! a ! c)"
    by (simp add: sum_distrib_left mult.assoc)
  also have "\<dots> = (\<Sum>c<N. \<Sum>m<N. dker N b m * dker N m c * psi ! a ! c)"
    by (rule sum.swap)
  also have "\<dots> = (\<Sum>c<N. (\<Sum>m<N. dker N b m * dker N m c) * psi ! a ! c)"
    by (simp add: sum_distrib_right)
  also have "\<dots> = (\<Sum>c<N. d2ker N b c * psi ! a ! c
                        + nyq N * pi * (- 1) ^ b * ((- 1) ^ c * psi ! a ! c))"
    by (simp only: dker_compose_nyq[OF N] distrib_right mult.assoc)
  also have "\<dots> = (\<Sum>c<N. d2ker N b c * psi ! a ! c)
                        + pi * (- 1) ^ b * (nyq N * alt_sum (psi ! a))"
    by (simp add: sum.distrib sum_distrib_left alt_sum_row[OF assms(1) ab(1)] mult_ac)
  also have "\<dots> = psi_xx_spec psi a b"
    by (simp add: nyq_row[OF assms ab(1)] psi_xx_kernel[OF assms(1) N ab])
  finally show "map spectralDeriv_spec (map spectralDeriv_spec psi) ! a ! b
      = tab N N (psi_xx_spec psi) ! a ! b"
    using ab by simp
qed

lemma ddy_ddy_val:
  assumes "is_field N N psi" "0 < N" "odd N \<or> nyquist_free psi"
  shows "T (map spectralDeriv_spec (T (T (map spectralDeriv_spec (T psi)))))
       = tab N N (psi_yy_spec psi)"
proof (rule field_eqI[of N N])
  note N = assms(2)
  have f: "is_field N N (T (map spectralDeriv_spec (T psi)))"
    using assms(1) N N by (rule is_field_ddy_val)
  show "is_field N N (T (map spectralDeriv_spec (T (T (map spectralDeriv_spec (T psi))))))"
    using f N N by (rule is_field_ddy_val)
  show "is_field N N (tab N N (psi_yy_spec psi))" by simp
  fix a b assume ab: "a < N" "b < N"
  have "T (map spectralDeriv_spec (T (T (map spectralDeriv_spec (T psi))))) ! a ! b
      = (\<Sum>l<N. dker N a l * T (map spectralDeriv_spec (T psi)) ! l ! b)"
    using f ab by (rule nth_ddy_val)
  also have "\<dots> = (\<Sum>l<N. dker N a l * (\<Sum>r<N. dker N l r * psi ! r ! b))"
    using assms(1) ab by (intro sum.cong refl) (simp add: nth_ddy_val)
  also have "\<dots> = (\<Sum>l<N. \<Sum>r<N. dker N a l * dker N l r * psi ! r ! b)"
    by (simp add: sum_distrib_left mult.assoc)
  also have "\<dots> = (\<Sum>r<N. \<Sum>l<N. dker N a l * dker N l r * psi ! r ! b)"
    by (rule sum.swap)
  also have "\<dots> = (\<Sum>r<N. (\<Sum>l<N. dker N a l * dker N l r) * psi ! r ! b)"
    by (simp add: sum_distrib_right)
  also have "\<dots> = (\<Sum>r<N. d2ker N a r * psi ! r ! b
                        + nyq N * pi * (- 1) ^ a * ((- 1) ^ r * psi ! r ! b))"
    by (simp only: dker_compose_nyq[OF N] distrib_right mult.assoc)
  also have "\<dots> = (\<Sum>r<N. d2ker N a r * psi ! r ! b)
                        + pi * (- 1) ^ a * (nyq N * alt_sum (T psi ! b))"
    by (simp add: sum.distrib sum_distrib_left alt_sum_col[OF assms(1) N ab(2)] mult_ac)
  also have "\<dots> = psi_yy_spec psi a b"
    by (simp add: nyq_col[OF assms(1,3) ab(2)] psi_yy_kernel[OF assms(1) N ab])
  finally show "T (map spectralDeriv_spec (T (T (map spectralDeriv_spec (T psi))))) ! a ! b
      = tab N N (psi_yy_spec psi) ! a ! b"
    using ab by simp
qed

lemma ddx_ddy_val:
  assumes "is_field N N psi" "0 < N" "odd N \<or> nyquist_free psi"
  shows "map spectralDeriv_spec (T (map spectralDeriv_spec (T psi))) = tab N N (psi_xy_spec psi)"
proof (rule field_eqI[of N N])
  note N = assms(2)
  have f: "is_field N N (T (map spectralDeriv_spec (T psi)))"
    using assms(1) N N by (rule is_field_ddy_val)
  show "is_field N N (map spectralDeriv_spec (T (map spectralDeriv_spec (T psi))))"
    using f by (rule is_field_map_spec)
  show "is_field N N (tab N N (psi_xy_spec psi))" by simp
  fix a b assume ab: "a < N" "b < N"
  have z: "(\<Sum>r<N. (- 1) ^ r * (nyq N * alt_sum (psi ! r))) = 0"
    by (rule sum.neutral) (simp add: nyq_row[OF assms(1,3)])
  have "map spectralDeriv_spec (T (map spectralDeriv_spec (T psi))) ! a ! b
      = (\<Sum>c<N. dker N b c * T (map spectralDeriv_spec (T psi)) ! a ! c)"
    using f ab by (rule nth_map_spec)
  also have "\<dots> = (\<Sum>c<N. dker N b c * (\<Sum>r<N. dker N a r * psi ! r ! c))"
    using assms(1) ab by (intro sum.cong refl) (simp add: nth_ddy_val)
  also have "\<dots> = (\<Sum>c<N. \<Sum>r<N. psi ! r ! c * dker N a r * dker N b c)"
    by (simp add: sum_distrib_left mult_ac)
  also have "\<dots> = (\<Sum>r<N. \<Sum>c<N. psi ! r ! c * dker N a r * dker N b c)"
    by (rule sum.swap)
  also have "\<dots> = psi_xy_spec psi a b"
    by (simp add: psi_xy_kernel_nyq[OF assms(1) N] z)
  finally show "map spectralDeriv_spec (T (map spectralDeriv_spec (T psi))) ! a ! b
      = tab N N (psi_xy_spec psi) ! a ! b"
    using ab by simp
qed

section \<open>Values at small inputs\<close>

lemma cis_minus_pi: "cis (- pi) = - 1"
  by (simp add: complex_eq_iff)

lemma spectralDeriv_single: "spectralDeriv [a] = Inr [0]"
  by (simp add: spectralDeriv_def fftfreq_def fft_def ifft_def)

lemma spectralDeriv_pair_12: "spectralDeriv [1, 2] = Inr [0, 0]"
  by (simp add: spectralDeriv_def fftfreq_def fft_def ifft_def twiddle_def Let_def upt_rec
      upto.simps cis_minus_pi)

lemma spectralDeriv_pair_34: "spectralDeriv [3, 4] = Inr [0, 0]"
  by (simp add: spectralDeriv_def fftfreq_def fft_def ifft_def twiddle_def Let_def upt_rec
      upto.simps cis_minus_pi)

lemma spectralDeriv_pair_alt: "spectralDeriv [1, - 1] = Inr [0, 0]"
  by (simp add: spectralDeriv_def fftfreq_def fft_def ifft_def twiddle_def Let_def upt_rec
      upto.simps cis_minus_pi)

lemma spectralDeriv_pair_zero: "spectralDeriv [0, 0] = Inr [0, 0]"
  by (simp add: spectralDeriv_def fftfreq_def fft_def ifft_def twiddle_def Let_def upt_rec
      upto.simps cis_minus_pi)

lemma less2: "{..<2::nat} = {0, 1}" by auto

lemma d2ker_2_vals:
  "d2ker 2 0 0 = - (pi\<^sup>2 / 2)" "d2ker 2 0 (Suc 0) = pi\<^sup>2 / 2"
  "d2ker 2 (Suc 0) 0 = pi\<^sup>2 / 2" "d2ker 2 (Suc 0) (Suc 0) = - (pi\<^sup>2 / 2)"
  by (simp_all add: d2ker_def E2_def cfac_def fft_index_def twiddle_def less2 cis_minus_pi power2_eq_square)

lemma dker_2_vals:
  "dker 2 0 0 = 0" "dker 2 0 (Suc 0) = 0" "dker 2 (Suc 0) 0 = 0" "dker 2 (Suc 0) (Suc 0) = 0"
  by (simp_all add: dker_def E1_def cfac_def fft_index_def twiddle_def less2 cis_minus_pi)

lemma alt_2: "alt_sum [a, b] = a - b"
  by (simp add: alt_sum_def less2)

lemma alt_4: "alt_sum [a, b, c, d] = a - b + c - d"
  by (simp add: alt_sum_def lessThan_Suc numeral_eq_Suc)

lemma pi_squared_ge_4: "4 \<le> pi\<^sup>2"
proof -
  have "2\<^sup>2 \<le> pi\<^sup>2" using pi_ge_two by (intro power_mono) simp_all
  then show ?thesis by simp
qed

section \<open>The claims\<close>

text \<open>
  C1, as stated: for every square field, each second partial inside \<open>getOkuboWeiss\<close>
  agrees with the composition of the slice operators. For even \<open>N\<close> it does not. A
  single \<open>spectralDeriv\<close> takes the real part and so drops the highest (Nyquist) mode,
  whose factor \<open>-i\<cdot>\<pi>\<close> makes it purely imaginary; \<open>getOkuboWeiss\<close> multiplies by the
  square \<open>-\<pi>\<^sup>2\<close> once, which is real, and keeps it. On the \<open>2 \<times> 2\<close> field with rows
  \<open>[1, -1]\<close> the composition \<open>ddx(ddx(psi))\<close> is zero and \<open>psi_xx\<close> has the
  entries \<open>-\<pi>\<^sup>2\<close> and \<open>\<pi>\<^sup>2\<close>, at least 4 in absolute value.
\<close>

theorem okubo_partials_even_counterexample:
  "is_field 2 2 [[1, - 1], [1, - 1 :: real]]
   \<and> okubo_partials [[1, - 1], [1, - 1]]
     = Inr ([[0, 0], [0, 0]], [[- pi\<^sup>2, pi\<^sup>2], [- pi\<^sup>2, pi\<^sup>2]], [[0, 0], [0, 0]])
   \<and> then_do (ddx [[1, - 1], [1, - 1]]) ddx = Inr [[0, 0], [0, 0]]
   \<and> 4 \<le> pi\<^sup>2"
proof -
  let ?psi = "[[1, - 1], [1, - 1 :: real]]"
  have f: "is_field 2 2 ?psi" by (simp add: is_field_def)
  have 1: "then_do (ddx ?psi) ddx = Inr [[0, 0], [0, 0]]"
    by (simp add: then_do_def ddx_def spectralDeriv_pair_alt spectralDeriv_pair_zero)
  have "tab 2 2 (psi_xx_spec ?psi) = tab 2 2 (\<lambda>a b. \<Sum>c<2. d2ker 2 b c * ?psi ! a ! c)"
    by (rule tab_cong) (simp add: psi_xx_kernel[OF f])
  also have "\<dots> = [[- pi\<^sup>2, pi\<^sup>2], [- pi\<^sup>2, pi\<^sup>2]]"
    by (simp add: tab_def upt_rec less2 d2ker_2_vals)
  finally have xx: "tab 2 2 (psi_xx_spec ?psi) = [[- pi\<^sup>2, pi\<^sup>2], [- pi\<^sup>2, pi\<^sup>2]]" .
  have "tab 2 2 (psi_yy_spec ?psi) = tab 2 2 (\<lambda>a b. \<Sum>r<2. d2ker 2 a r * ?psi ! r ! b)"
    by (rule tab_cong) (simp add: psi_yy_kernel[OF f])
  also have "\<dots> = [[0, 0], [0, 0]]"
    by (simp add: tab_def upt_rec less2 d2ker_2_vals)
  finally have yy: "tab 2 2 (psi_yy_spec ?psi) = [[0, 0], [0, 0]]" .
  have "tab 2 2 (psi_xy_spec ?psi)
      = tab 2 2 (\<lambda>a b. (\<Sum>r<2. \<Sum>c<2. ?psi ! r ! c * dker 2 a r * dker 2 b c)
         - nyq 2 * (- 1) ^ a * (- 1) ^ b * (\<Sum>r<2. (- 1) ^ r * (nyq 2 * alt_sum (?psi ! r))))"
    by (rule tab_cong) (simp only: psi_xy_kernel_nyq[OF f zero_less_numeral])
  also have "\<dots> = [[0, 0], [0, 0]]"
    by (simp add: tab_def upt_rec less2 dker_2_vals alt_2)
  finally have xy: "tab 2 2 (psi_xy_spec ?psi) = [[0, 0], [0, 0]]" .
  show ?thesis
    using f 1 pi_squared_ge_4 by (simp add: okubo_partials_formula[OF f] xx yy xy)
qed

text \<open>
  C1, amended: for every square real field \<open>psi\<close> of shape \<open>(N, N)\<close>, \<open>N \<ge> 1\<close>,
  such that \<open>N\<close> is odd or \<open>psi\<close> has no Nyquist content (every row and every column
  has alternating sum 0), the three second partials computed inside \<open>getOkuboWeiss\<close>
  are exactly (in exact arithmetic) the compositions of the slice operators:
  \<open>psi_xx = ddx(ddx(psi))\<close>, \<open>psi_yy = ddy(ddy(psi))\<close> and
  \<open>psi_xy = ddx(ddy(psi))\<close>.
\<close>

theorem okubo_partials_agree:
  assumes "is_field N N psi" and "1 \<le> N" and "odd N \<or> nyquist_free psi"
  shows "\<exists>psi_xy psi_xx psi_yy.
           okubo_partials psi = Inr (psi_xy, psi_xx, psi_yy)
         \<and> then_do (ddx psi) ddx = Inr psi_xx
         \<and> then_do (ddy psi) ddy = Inr psi_yy
         \<and> then_do (ddy psi) ddx = Inr psi_xy"
proof -
  have N: "0 < N" using assms(2) by simp
  have fx: "is_field N N (map spectralDeriv_spec psi)" using assms(1) by (rule is_field_map_spec)
  have fy: "is_field N N (T (map spectralDeriv_spec (T psi)))"
    using assms(1) N N by (rule is_field_ddy_val)
  have 1: "then_do (ddx psi) ddx = Inr (tab N N (psi_xx_spec psi))"
    unfolding ddx_ddx_val[OF assms(1,3), symmetric]
    by (simp only: then_do_def ddx_spec[OF assms(1) N N] sum.case ddx_spec[OF fx N N])
  have 2: "then_do (ddy psi) ddy = Inr (tab N N (psi_yy_spec psi))"
    unfolding ddy_ddy_val[OF assms(1) N assms(3), symmetric]
    by (simp only: then_do_def ddy_spec[OF assms(1) N N] sum.case ddy_spec[OF fy N N])
  have 3: "then_do (ddy psi) ddx = Inr (tab N N (psi_xy_spec psi))"
    unfolding ddx_ddy_val[OF assms(1) N assms(3), symmetric]
    by (simp only: then_do_def ddy_spec[OF assms(1) N N] sum.case ddx_spec[OF fy N N])
  show ?thesis
    using okubo_partials_formula[OF assms(1) N] 1 2 3 by blast
qed

theorem okubo_partials_agree_witness:
  "is_field 4 4 [[2, 3, 4, 3], [3, 4, 5, 4], [4, 5, 6, 5], [3, 4, 5, 4 :: real]]
   \<and> nyquist_free [[2, 3, 4, 3], [3, 4, 5, 4], [4, 5, 6, 5], [3, 4, 5, 4]]
   \<and> (\<exists>psi_xy psi_xx psi_yy.
         okubo_partials [[2, 3, 4, 3], [3, 4, 5, 4], [4, 5, 6, 5], [3, 4, 5, 4]]
           = Inr (psi_xy, psi_xx, psi_yy)
       \<and> then_do (ddx [[2, 3, 4, 3], [3, 4, 5, 4], [4, 5, 6, 5], [3, 4, 5, 4]]) ddx = Inr psi_xx
       \<and> then_do (ddy [[2, 3, 4, 3], [3, 4, 5, 4], [4, 5, 6, 5], [3, 4, 5, 4]]) ddy = Inr psi_yy
       \<and> then_do (ddy [[2, 3, 4, 3], [3, 4, 5, 4], [4, 5, 6, 5], [3, 4, 5, 4]]) ddx = Inr psi_xy)
   \<and> is_field 3 3 [[1, 2, 4], [0, 1, 5], [2, 2, 3 :: real]] \<and> odd (3::nat)
   \<and> (\<exists>psi_xy psi_xx psi_yy.
         okubo_partials [[1, 2, 4], [0, 1, 5], [2, 2, 3]] = Inr (psi_xy, psi_xx, psi_yy)
       \<and> then_do (ddx [[1, 2, 4], [0, 1, 5], [2, 2, 3]]) ddx = Inr psi_xx
       \<and> then_do (ddy [[1, 2, 4], [0, 1, 5], [2, 2, 3]]) ddy = Inr psi_yy
       \<and> then_do (ddy [[1, 2, 4], [0, 1, 5], [2, 2, 3]]) ddx = Inr psi_xy)"
  using okubo_partials_agree[of 4 "[[2, 3, 4, 3], [3, 4, 5, 4], [4, 5, 6, 5], [3, 4, 5, 4]]"]
    okubo_partials_agree[of 3 "[[1, 2, 4], [0, 1, 5], [2, 2, 3]]"]
  by (simp add: is_field_def nyquist_free_def T_def alt_4 upt_rec)

text \<open>
  C3. For a real input of length \<open>N \<ge> 1\<close>, \<open>spectralDeriv\<close> returns a real sequence
  of the same length, equal to the real part of the inverse DFT of the forward DFT with
  the coefficient at index \<open>k\<close> multiplied by \<open>i\<cdot>(2\<pi>\<cdot>k/N)\<close>, \<open>k\<close> in the standard FFT
  frequency ordering (\<open>spectralDeriv_spec\<close>, with \<open>cfac\<close> and \<open>fft_index\<close>).
\<close>

theorem spectralDeriv_meets_formula:
  assumes "1 \<le> length array"
  shows "spectralDeriv array = Inr (spectralDeriv_spec array)
       \<and> length (spectralDeriv_spec array) = length array"
  using assms spectralDeriv_formula[of array] by (cases array) auto

theorem spectralDeriv_meets_formula_witness:
  "1 \<le> length [1, 2, 4 :: real]
   \<and> spectralDeriv [1, 2, 4] = Inr (spectralDeriv_spec [1, 2, 4])
   \<and> length (spectralDeriv_spec [1, 2, 4]) = 3"
  using spectralDeriv_meets_formula[of "[1, 2, 4]"] by simp

text \<open>
  C4. For a square field \<open>psi\<close> of shape \<open>(N, N)\<close>, \<open>N \<ge> 1\<close>, \<open>getOkuboWeiss\<close>
  returns \<open>Q = psi_xy\<^sup>2 - psi_xx \<cdot> psi_yy\<close>, the three partials being the real parts of
  the inverse transforms of the one forward transform of \<open>psi\<close> with the coefficient
  at \<open>(row, col)\<close> multiplied by \<open>(i\<cdot>2\<pi>\<cdot>kx)(i\<cdot>2\<pi>\<cdot>ky)\<close>, \<open>(i\<cdot>2\<pi>\<cdot>kx)\<^sup>2\<close> and
  \<open>(i\<cdot>2\<pi>\<cdot>ky)\<^sup>2\<close>, where \<open>kx\<close> is the frequency of the column index and \<open>ky\<close> that
  of the row index, in the standard FFT ordering (\<open>okubo_weiss_spec\<close>).
\<close>

theorem getOkuboWeiss_meets_formula:
  assumes "is_field N N psi" and "1 \<le> N"
  shows "getOkuboWeiss psi = Inr (okubo_weiss_spec psi)
       \<and> is_field N N (okubo_weiss_spec psi)
       \<and> okubo_partials psi
           = Inr (tab N N (psi_xy_spec psi), tab N N (psi_xx_spec psi), tab N N (psi_yy_spec psi))"
proof -
  have N: "0 < N" using assms(2) by simp
  have len: "length psi = N" using assms(1) by (simp add: is_field_iff)
  have "getOkuboWeiss psi
      = Inr (tab N N (\<lambda>i j. psi_xy_spec psi i j * psi_xy_spec psi i j
                               - psi_xx_spec psi i j * psi_yy_spec psi i j))"
    unfolding getOkuboWeiss_def okubo_partials_formula[OF assms(1) N] then_do_def sum.case
      prod.case broadcast2_tab[OF N] ..
  then show ?thesis
    by (simp add: okubo_weiss_spec_def len power2_eq_square okubo_partials_formula[OF assms(1) N])
qed

theorem getOkuboWeiss_meets_formula_witness:
  "is_field 2 2 [[1, 2], [3, 5 :: real]] \<and> (1::nat) \<le> 2
   \<and> getOkuboWeiss [[1, 2], [3, 5]] = Inr (okubo_weiss_spec [[1, 2], [3, 5]])
   \<and> is_field 2 2 (okubo_weiss_spec [[1, 2], [3, 5]])"
  using getOkuboWeiss_meets_formula[of 2 "[[1, 2], [3, 5]]"] by (simp add: is_field_def)

text \<open>
  C5, as stated: for \<open>vx\<close> and \<open>vy\<close> of different shapes \<open>getVorticity\<close> fails with
  a shape-mismatch error. It does not: for \<open>vx\<close> of shape \<open>(1, 2)\<close> and \<open>vy\<close> of
  shape \<open>(2, 2)\<close> it returns an array, the one row of \<open>ddy(vx)\<close> broadcast over the
  two rows of \<open>ddx(vy)\<close>.
\<close>

theorem getVorticity_broadcast_counterexample:
  "shape [[1, 2 :: real]] \<noteq> shape [[1, 2], [3, 4 :: real]]
   \<and> getVorticity [[1, 2]] [[1, 2], [3, 4]] = Inr [[0, 0], [0, 0]]"
  by (simp add: getVorticity_def ddx_def ddy_def spectralDeriv_pair_12 spectralDeriv_pair_34
      spectralDeriv_single T_def shape_def broadcast2_def bdim_def upt_rec)

text \<open>
  C5, amended: \<open>getVorticity\<close> has no shape check of its own. For fields with at
  least one row and one column it computes both derivatives and then subtracts them
  under NumPy broadcasting: it fails, with the \<open>ValueError\<close> of the subtraction and with
  no other error, exactly when on some axis the two lengths differ and neither is 1;
  when the shapes differ only on axes where one length is 1 it returns the broadcast
  difference.
\<close>

theorem getVorticity_shape_mismatch:
  assumes "is_field N M vx" and "is_field N' M' vy"
    and "1 \<le> N" and "1 \<le> M" and "1 \<le> N'" and "1 \<le> M'"
  shows "\<exists>dvy dvx. ddx vy = Inr dvy \<and> ddy vx = Inr dvx
           \<and> getVorticity vx vy = broadcast2 (-) dvy dvx
           \<and> (getVorticity vx vy = Inl ValueError
                \<longleftrightarrow> \<not> ((N = N' \<or> N = 1 \<or> N' = 1) \<and> (M = M' \<or> M = 1 \<or> M' = 1)))
           \<and> (isl (getVorticity vx vy) \<longleftrightarrow> getVorticity vx vy = Inl ValueError)"
proof -
  have p: "0 < N" "0 < M" "0 < N'" "0 < M'" using assms by simp_all
  have 1: "ddx vy = Inr (map spectralDeriv_spec vy)" by (rule ddx_spec[OF assms(2) p(3,4)])
  have 2: "ddy vx = Inr (T (map spectralDeriv_spec (T vx)))"
    by (rule ddy_spec[OF assms(1) p(1,2)])
  have s1: "shape (map spectralDeriv_spec vy) = (N', M')"
    by (rule shape_field[OF is_field_map_spec[OF assms(2)] p(3)])
  have s2: "shape (T (map spectralDeriv_spec (T vx))) = (N, M)"
    by (rule shape_field[OF is_field_ddy_val[OF assms(1) p(1,2)] p(1)])
  have 3: "getVorticity vx vy
      = broadcast2 (-) (map spectralDeriv_spec vy) (T (map spectralDeriv_spec (T vx)))"
    unfolding getVorticity_def 1 2 sum.case ..
  have 4: "getVorticity vx vy = Inl ValueError
      \<longleftrightarrow> \<not> ((N = N' \<or> N = 1 \<or> N' = 1) \<and> (M = M' \<or> M = 1 \<or> M' = 1))"
    unfolding 3 by (auto simp: broadcast2_def s1 s2 bdim_def)
  have 5: "isl (getVorticity vx vy) \<longleftrightarrow> getVorticity vx vy = Inl ValueError"
    unfolding 3 by (auto simp: broadcast2_def s1 s2 bdim_def)
  show ?thesis using 1 2 3 4 5 by blast
qed

theorem getVorticity_shape_mismatch_witness:
  "is_field 2 3 [[1, 2, 3], [4, 5, 6 :: real]] \<and> is_field 3 2 [[1, 2], [3, 4], [5, 6 :: real]]
   \<and> getVorticity [[1, 2, 3], [4, 5, 6]] [[1, 2], [3, 4], [5, 6]] = Inl ValueError"
  using getVorticity_shape_mismatch[of 2 3 "[[1, 2, 3], [4, 5, 6]]" 3 2 "[[1, 2], [3, 4], [5, 6]]"]
  by (auto simp: is_field_def)

text \<open>
  C6. With \<open>pattern\<close> the smoothed noise field, of shape \<open>(N, N)\<close> with \<open>N \<ge> 1\<close>:
  \<open>getRandomStreamFunction\<close> raises (and then it is the \<open>ValueError\<close>) if and only if
  the maximum absolute value of \<open>pattern\<close> is 0; otherwise it divides by a non-zero
  maximum and returns an \<open>N \<times> N\<close> field with all values in \<open>[-1, 1]\<close> and maximum
  absolute value 1. The statement holds for every \<open>sigma\<close>.
\<close>

theorem getRandomStreamFunction_normalised:
  assumes "pattern = gaussian_filter (map (map (\<lambda>u. 2 * u - 1)) (rand N N)) sigma"
    and "is_field N N pattern" and "1 \<le> N"
  shows "(getRandomStreamFunction rand gaussian_filter N sigma = Inl ValueError
            \<longleftrightarrow> amax (map (map abs) pattern) = Inr 0)
       \<and> (isl (getRandomStreamFunction rand gaussian_filter N sigma)
            \<longleftrightarrow> amax (map (map abs) pattern) = Inr 0)
       \<and> (amax (map (map abs) pattern) \<noteq> Inr 0 \<longrightarrow>
            (\<exists>psi. getRandomStreamFunction rand gaussian_filter N sigma = Inr psi
                 \<and> is_field N N psi
                 \<and> (\<forall>i<N. \<forall>j<N. - 1 \<le> psi ! i ! j \<and> psi ! i ! j \<le> 1)
                 \<and> amax (map (map abs) psi) = Inr 1))"
proof -
  have N: "0 < N" using assms(3) by simp
  let ?S = "{\<bar>pattern ! i ! j\<bar> | i j. i < N \<and> j < N}"
  define mx where "mx = Max ?S"
  have am: "amax (map (map abs) pattern) = Inr mx"
    unfolding mx_def using assms(2) N N by (rule amax_abs_field)
  have fin: "finite ?S" by (rule finite_entries)
  have ne: "?S \<noteq> {}" using N by auto
  have le: "\<bar>pattern ! i ! j\<bar> \<le> mx" if "i < N" "j < N" for i j
    unfolding mx_def using fin that by (intro Max_ge) auto
  have "mx \<in> ?S" unfolding mx_def using fin ne by (rule Max_in)
  then obtain i0 j0 where ij0: "i0 < N" "j0 < N" "mx = \<bar>pattern ! i0 ! j0\<bar>" by auto
  have g: "getRandomStreamFunction rand gaussian_filter N sigma
      = (if mx = 0 then Inl ValueError else Inr (map (map (\<lambda>p. p / mx)) pattern))"
    by (simp add: getRandomStreamFunction_def Let_def assms(1)[symmetric] am then_do_def)
  show ?thesis
  proof (cases "mx = 0")
    case True
    then show ?thesis by (simp add: g am)
  next
    case False
    then have pos: "0 < mx" using ij0(3) by simp
    let ?psi = "map (map (\<lambda>p. p / mx)) pattern"
    have f: "is_field N N ?psi" using assms(2) by (rule is_field_map_map)
    have e: "?psi ! i ! j = pattern ! i ! j / mx" if "i < N" "j < N" for i j
      using assms(2) that by (rule nth_map_map)
    have b: "- 1 \<le> ?psi ! i ! j \<and> ?psi ! i ! j \<le> 1" if "i < N" "j < N" for i j
    proof -
      have "- mx \<le> pattern ! i ! j" "pattern ! i ! j \<le> mx"
        using le[OF that] by (simp_all add: abs_le_iff)
      then show ?thesis unfolding e[OF that] using pos
        by (simp add: pos_le_divide_eq pos_divide_le_eq)
    qed
    have "Max {\<bar>?psi ! i ! j\<bar> | i j. i < N \<and> j < N} = 1"
    proof (rule Max_eqI)
      show "finite {\<bar>?psi ! i ! j\<bar> | i j. i < N \<and> j < N}" by (rule finite_entries)
      show "y \<le> 1" if "y \<in> {\<bar>?psi ! i ! j\<bar> | i j. i < N \<and> j < N}" for y
        using that b by (auto simp: abs_le_iff) 
      have "\<bar>?psi ! i0 ! j0\<bar> = \<bar>pattern ! i0 ! j0\<bar> / mx"
        unfolding e[OF ij0(1,2)] using pos by simp
      also have "\<dots> = 1" using ij0(3) pos by simp
      finally have "\<bar>?psi ! i0 ! j0\<bar> = 1" .
      then show "1 \<in> {\<bar>?psi ! i ! j\<bar> | i j. i < N \<and> j < N}" using ij0(1,2) by force
    qed
    then have "amax (map (map abs) ?psi) = Inr 1"
      using amax_abs_field[OF f N N] by simp
    then show ?thesis using False f b by (simp add: g am)
  qed
qed

theorem getRandomStreamFunction_normalised_witness:
  "is_field 2 2 [[0, 1], [- 1, - 1 / 2 :: real]]
   \<and> amax (map (map abs) [[0, 1], [- 1, - 1 / 2]]) = Inr 1
   \<and> getRandomStreamFunction (\<lambda>n m. [[1 / 2, 1], [0, 1 / 4]]) (\<lambda>a s. a) 2 0
       = Inr [[0, 1], [- 1, - 1 / 2]]
   \<and> amax (map (map abs) [[0, 1], [- 1, - 1 / 2 :: real]]) \<noteq> Inr 0"
  using getRandomStreamFunction_normalised[of "[[0, 1], [- 1, - 1 / 2]]" "\<lambda>a s. a" "\<lambda>n m. [[1 / 2, 1], [0, 1 / 4]]" 2 0]
  by (simp add: is_field_def amax_def getRandomStreamFunction_def then_do_def)

text \<open>
  C7. For a field of shape \<open>(N, M)\<close> with \<open>N, M \<ge> 1\<close>, \<open>ddx\<close> returns a field of
  the same shape whose row \<open>i\<close> is \<open>spectralDeriv\<close> of row \<open>i\<close> of the input (so
  a row of the result depends on that row alone), and \<open>ddy\<close> returns a field of the
  same shape whose column \<open>j\<close> is \<open>spectralDeriv\<close> of column \<open>j\<close> of the input.
\<close>

theorem ddx_ddy_slicewise:
  assumes "is_field N M a" and "1 \<le> N" and "1 \<le> M"
  shows "\<exists>dx dy. ddx a = Inr dx \<and> is_field N M dx
            \<and> (\<forall>i<N. spectralDeriv (a ! i) = Inr (dx ! i))
            \<and> ddy a = Inr dy \<and> is_field N M dy
            \<and> (\<forall>j<M. spectralDeriv (map (\<lambda>row. row ! j) a) = Inr (map (\<lambda>row. row ! j) dy))"
proof -
  have N: "0 < N" and M: "0 < M" using assms by simp_all
  let ?dx = "map spectralDeriv_spec a" and ?dy = "T (map spectralDeriv_spec (T a))"
  have fT: "is_field M N (T a)" using assms(1) N by (rule is_field_T)
  have fs: "is_field M N (map spectralDeriv_spec (T a))" using fT by (rule is_field_map_spec)
  have fdy: "is_field N M ?dy" using assms(1) N M by (rule is_field_ddy_val)
  have rows: "spectralDeriv (a ! i) = Inr (?dx ! i)" if "i < N" for i
  proof -
    have "a ! i \<noteq> []" using assms(1) that M by (auto simp: is_field_iff)
    then show ?thesis using assms(1) that by (simp add: spectralDeriv_formula is_field_iff)
  qed
  have cols: "spectralDeriv (map (\<lambda>row. row ! j) a) = Inr (map (\<lambda>row. row ! j) ?dy)"
    if "j < M" for j
  proof -
    have "T a ! j \<noteq> []" using fT that N by (auto simp: is_field_iff)
    then have "spectralDeriv (T a ! j) = Inr (map spectralDeriv_spec (T a) ! j)"
      using fT that by (simp add: spectralDeriv_formula is_field_iff)
    also have "map spectralDeriv_spec (T a) ! j = T (T (map spectralDeriv_spec (T a))) ! j"
      using fs M N by (simp add: T_T)
    also have "\<dots> = map (\<lambda>row. row ! j) ?dy"
      using fdy N that by (rule column_T)
    finally show ?thesis using assms(1) N that by (simp add: column_T)
  qed
  show ?thesis
    using ddx_spec[OF assms(1) N M] ddy_spec[OF assms(1) N M] is_field_map_spec[OF assms(1)] fdy
      rows cols by blast
qed

theorem ddx_ddy_slicewise_witness:
  "is_field 2 3 [[1, 2, 3], [4, 5, 7 :: real]] \<and> (1::nat) \<le> 2 \<and> (1::nat) \<le> 3
   \<and> (\<exists>dx dy. ddx [[1, 2, 3], [4, 5, 7]] = Inr dx \<and> is_field 2 3 dx
         \<and> spectralDeriv [1, 2, 3] = Inr (dx ! 0) \<and> spectralDeriv [4, 5, 7] = Inr (dx ! 1)
         \<and> ddy [[1, 2, 3], [4, 5, 7]] = Inr dy \<and> is_field 2 3 dy
         \<and> spectralDeriv [3, 7] = Inr (map (\<lambda>row. row ! 2) dy))"
proof -
  have "is_field 2 3 [[1, 2, 3], [4, 5, 7 :: real]]" by (simp add: is_field_def)
  from ddx_ddy_slicewise[OF this] obtain dx dy where
    h: "ddx [[1, 2, 3], [4, 5, 7]] = Inr dx" "is_field 2 3 dx"
      "\<forall>i<2. spectralDeriv ([[1, 2, 3], [4, 5, 7]] ! i) = Inr (dx ! i)"
      "ddy [[1, 2, 3], [4, 5, 7]] = Inr dy" "is_field 2 3 dy"
      "\<forall>j<3. spectralDeriv (map (\<lambda>row. row ! j) [[1, 2, 3], [4, 5, 7]])
               = Inr (map (\<lambda>row. row ! j) dy)"
    by auto
  from h(3)[rule_format, of 0] h(3)[rule_format, of 1]
  have "spectralDeriv [1, 2, 3] = Inr (dx ! 0)" "spectralDeriv [4, 5, 7] = Inr (dx ! 1)"
    by simp_all
  moreover from h(6)[rule_format, of 2]
  have "spectralDeriv [3, 7] = Inr (map (\<lambda>row. row ! 2) dy)"
    by simp
  ultimately show ?thesis using h(1,2,4,5) by (simp add: is_field_def)
qed

text \<open>
  C8. For a field \<open>f\<close> with at least one row and one column, \<open>ddy(f)\<close> is the
  transpose of \<open>ddx\<close> applied to the transpose of \<open>f\<close>.
\<close>

theorem ddy_is_transposed_ddx:
  assumes "is_field N M f" and "1 \<le> N" and "1 \<le> M"
  shows "\<exists>d. ddx (T f) = Inr d \<and> ddy f = Inr (T d)"
proof -
  have N: "0 < N" and M: "0 < M" using assms by simp_all
  have fT: "is_field M N (T f)" using assms(1) N by (rule is_field_T)
  show ?thesis
    using ddx_spec[OF fT M N] ddy_spec[OF assms(1) N M] by simp
qed

theorem ddy_is_transposed_ddx_witness:
  "is_field 2 3 [[1, 2, 3], [4, 5, 7 :: real]] \<and> (1::nat) \<le> 2 \<and> (1::nat) \<le> 3
   \<and> (\<exists>d. ddx (T [[1, 2, 3], [4, 5, 7]]) = Inr d \<and> ddy [[1, 2, 3], [4, 5, 7]] = Inr (T d))"
  using ddy_is_transposed_ddx[of 2 3 "[[1, 2, 3], [4, 5, 7]]"] by (simp add: is_field_def)

text \<open>
  C9. For \<open>vx\<close> and \<open>vy\<close> of one shape \<open>(N, M)\<close> with \<open>N, M \<ge> 1\<close>,
  \<open>getVorticity\<close> returns the entrywise difference \<open>ddx(vy) - ddy(vx)\<close> and nothing
  else is applied to it.
\<close>

theorem getVorticity_is_curl:
  assumes "is_field N M vx" and "is_field N M vy" and "1 \<le> N" and "1 \<le> M"
  shows "\<exists>dvy dvx. ddx vy = Inr dvy \<and> ddy vx = Inr dvx \<and> is_field N M dvy \<and> is_field N M dvx
           \<and> getVorticity vx vy
               = Inr (map (\<lambda>i. map (\<lambda>j. dvy ! i ! j - dvx ! i ! j) [0..<M]) [0..<N])"
proof -
  have N: "0 < N" and M: "0 < M" using assms by simp_all
  have 1: "ddx vy = Inr (map spectralDeriv_spec vy)" using assms(2) N M by (rule ddx_spec)
  have 2: "ddy vx = Inr (T (map spectralDeriv_spec (T vx)))" using assms(1) N M by (rule ddy_spec)
  have "broadcast2 (-) (map spectralDeriv_spec vy) (T (map spectralDeriv_spec (T vx)))
      = Inr (map (\<lambda>i. map (\<lambda>j. map spectralDeriv_spec vy ! i ! j
                                 - T (map spectralDeriv_spec (T vx)) ! i ! j) [0..<M]) [0..<N])"
    using is_field_map_spec[OF assms(2)] is_field_ddy_val[OF assms(1) N M] N
    by (rule broadcast2_same_shape)
  then show ?thesis
    unfolding getVorticity_def 1 2 sum.case
    using is_field_map_spec[OF assms(2)] is_field_ddy_val[OF assms(1) N M] by blast
qed

theorem getVorticity_is_curl_witness:
  "is_field 2 2 [[1, 2], [3, 5 :: real]] \<and> is_field 2 2 [[0, 1], [4, 2 :: real]]
   \<and> (\<exists>dvy dvx. ddx [[0, 1], [4, 2]] = Inr dvy \<and> ddy [[1, 2], [3, 5]] = Inr dvx
         \<and> getVorticity [[1, 2], [3, 5]] [[0, 1], [4, 2]]
             = Inr [[dvy ! 0 ! 0 - dvx ! 0 ! 0, dvy ! 0 ! 1 - dvx ! 0 ! 1],
                    [dvy ! 1 ! 0 - dvx ! 1 ! 0, dvy ! 1 ! 1 - dvx ! 1 ! 1]])"
  using getVorticity_is_curl[of 2 2 "[[1, 2], [3, 5]]" "[[0, 1], [4, 2]]"]
  by (auto simp: is_field_def upt_rec)

text \<open>
  C10, as stated: \<open>spectralDeriv\<close> treats the lengths 0 and 1 explicitly and returns
  the empty sequence for the empty one. On the empty sequence it raises instead: the
  \<open>ZeroDivisionError\<close> of \<open>np.fft.fftfreq(0)\<close>.
\<close>

theorem spectralDeriv_empty_counterexample:
  "spectralDeriv [] \<noteq> Inr [] \<and> spectralDeriv [] = Inl ZeroDivisionError"
  by (simp add: spectralDeriv_def fftfreq_def)

text \<open>
  C10, amended: \<open>spectralDeriv\<close> has no special case for the degenerate lengths.
  Applied to a sequence of length 1 it returns the zero sequence of length 1, as the
  library calls compute it; applied to the empty sequence it does not return and
  raises the \<open>ZeroDivisionError\<close> of the frequency computation.
\<close>

theorem spectralDeriv_degenerate_lengths:
  "spectralDeriv [a] = Inr [0] \<and> spectralDeriv [] = Inl ZeroDivisionError"
  by (simp add: spectralDeriv_def fftfreq_def fft_def ifft_def)

end
